theory Spec2Isabelle
  imports Main
begin

section \<open>Python strings\<close>

text \<open>
  A Python \<open>str\<close> is modelled as the list of its code points, for code points below 256
  (one \<open>char\<close> each). The library functions used by \<open>bot.py\<close> are written out as CPython
  computes them on such strings: \<open>str.strip()\<close>, \<open>str.lower()\<close>, the substring test
  \<open>in\<close>, \<open>str.split(sep)\<close>, \<open>sep.join(parts)\<close>, \<open>int(s)\<close> and the decimal rendering
  of an integer in an f-string.
\<close>

abbreviation LF :: char where "LF \<equiv> CHR 0x0A"
abbreviation CR :: char where "CR \<equiv> CHR 0x0D"

definition isspace :: "char \<Rightarrow> bool" where
  \<comment> \<open>\<open>str.isspace\<close>: the characters that \<open>str.strip()\<close> removes\<close>
  "isspace c = (let n = (of_char c :: nat) in
     (9 \<le> n \<and> n \<le> 13) \<or> (28 \<le> n \<and> n \<le> 32) \<or> n = 133 \<or> n = 160)"

definition strip :: "string \<Rightarrow> string" where
  "strip s = rev (dropWhile isspace (rev (dropWhile isspace s)))"

definition isupper :: "char \<Rightarrow> bool" where
  "isupper c = (let n = (of_char c :: nat) in
     (65 \<le> n \<and> n \<le> 90) \<or> (192 \<le> n \<and> n \<le> 222 \<and> n \<noteq> 215))"

fun set_bit5 :: "char \<Rightarrow> char" where
  "set_bit5 (Char b0 b1 b2 b3 b4 b5 b6 b7) = Char b0 b1 b2 b3 b4 True b6 b7"

definition lower_char :: "char \<Rightarrow> char" where
  \<comment> \<open>an upper-case letter has bit 5 clear; its lower-case letter is 32 above it\<close>
  "lower_char c = (if isupper c then set_bit5 c else c)"

definition lower :: "string \<Rightarrow> string" where
  "lower s = map lower_char s"

fun startswith :: "string \<Rightarrow> string \<Rightarrow> bool" where
  "startswith s [] = True"
| "startswith [] (p # ps) = False"
| "startswith (c # cs) (p # ps) = (c = p \<and> startswith cs ps)"

fun contains :: "string \<Rightarrow> string \<Rightarrow> bool" where
  \<comment> \<open>\<open>contains sub s\<close> is Python's \<open>sub in s\<close>\<close>
  "contains sub [] = (sub = [])"
| "contains sub (c # cs) = (startswith (c # cs) sub \<or> contains sub cs)"

fun split :: "char \<Rightarrow> string \<Rightarrow> string list" where
  \<comment> \<open>\<open>split sep s\<close> is \<open>s.split(sep)\<close> for a one-character separator\<close>
  "split sep [] = [[]]"
| "split sep (c # cs) =
     (if c = sep then [] # split sep cs
      else (case split sep cs of [] \<Rightarrow> [[c]] | w # ws \<Rightarrow> (c # w) # ws))"

fun join :: "string \<Rightarrow> string list \<Rightarrow> string" where
  \<comment> \<open>\<open>join sep parts\<close> is \<open>sep.join(parts)\<close>\<close>
  "join sep [] = []"
| "join sep [x] = x"
| "join sep (x # y # ys) = x @ sep @ join sep (y # ys)"

definition isdigit :: "char \<Rightarrow> bool" where
  "isdigit c = (let n = (of_char c :: nat) in 48 \<le> n \<and> n \<le> 57)"

definition int_space :: "char \<Rightarrow> bool" where
  \<comment> \<open>the white space that \<open>int()\<close> skips: C's \<open>isspace\<close> and the Unicode spaces above 127\<close>
  "int_space c = (let n = (of_char c :: nat) in
     (9 \<le> n \<and> n \<le> 13) \<or> n = 32 \<or> n = 133 \<or> n = 160)"

fun valid_digits :: "string \<Rightarrow> bool" where
  \<comment> \<open>digits, with single underscores allowed between two digits\<close>
  "valid_digits [] = False"
| "valid_digits [c] = isdigit c"
| "valid_digits (c # d # cs) =
     (isdigit c \<and> (if d = CHR ''_'' then valid_digits cs else valid_digits (d # cs)))"

definition int_max_str_digits :: nat where
  \<comment> \<open>CPython's default limit on the number of digits that \<open>int()\<close> converts\<close>
  "int_max_str_digits = 4300"

definition digits_value :: "string \<Rightarrow> int" where
  "digits_value ds = foldl (\<lambda>a c. 10 * a + (of_char c - 48)) 0 ds"

definition py_int :: "string \<Rightarrow> int option" where
  \<comment> \<open>\<open>int(s)\<close>; \<open>None\<close> where Python raises \<open>ValueError\<close>\<close>
  "py_int s =
     (let t = rev (dropWhile int_space (rev (dropWhile int_space s)));
          neg = (t \<noteq> [] \<and> hd t = CHR ''-'');
          body = (if t \<noteq> [] \<and> (hd t = CHR ''-'' \<or> hd t = CHR ''+'') then tl t else t);
          ds = filter (\<lambda>c. c \<noteq> CHR ''_'') body
      in if valid_digits body \<and> length ds \<le> int_max_str_digits
         then Some (if neg then - digits_value ds else digits_value ds)
         else None)"

definition digit_char :: "nat \<Rightarrow> char" where
  "digit_char d = ''0123456789'' ! d"

function str_digits :: "int \<Rightarrow> string" where
  "str_digits n =
     (if n < 10 then [digit_char (nat n)]
      else str_digits (n div 10) @ [digit_char (nat (n mod 10))])"
  by pat_completeness auto
termination
  by (relation "measure nat") auto

declare str_digits.simps [simp del]

definition str_int :: "int \<Rightarrow> string" where
  \<comment> \<open>the text an f-string gives an \<open>int\<close>\<close>
  "str_int i = (if i < 0 then CHR ''-'' # str_digits (- i) else str_digits i)"

section \<open>The record store: \<open>database.txt\<close>\<close>

text \<open>
  The file is its text, or \<open>None\<close> while it does not exist. Files are opened in text mode:
  reading translates CR LF and a lone CR to LF (universal newlines), writing leaves LF as
  it is (the line separator of the platform that runs Docker).
\<close>

type_synonym store = "string option"

datatype exn = IndexError | OtherException string

definition add_to_database :: "int \<Rightarrow> store \<Rightarrow> string \<Rightarrow> string \<Rightarrow> string \<Rightarrow> store" where
  \<comment> \<open>\<open>ts\<close> is the value of \<open>int(time.time())\<close>; mode \<open>"a"\<close> creates the file\<close>
  "add_to_database ts file user container_id ssh_command =
     (let line = user @ ''|'' @ container_id @ ''|'' @ ssh_command @ ''|'' @ str_int ts @ [LF]
      in Some ((case file of None \<Rightarrow> [] | Some text \<Rightarrow> text) @ line))"

fun universal_newlines :: "string \<Rightarrow> string" where
  "universal_newlines [] = []"
| "universal_newlines [c] = (if c = CR then [LF] else [c])"
| "universal_newlines (c # d # cs) =
     (if c = CR then LF # (if d = LF then universal_newlines cs else universal_newlines (d # cs))
      else c # universal_newlines (d # cs))"

fun readlines :: "string \<Rightarrow> string list" where
  \<comment> \<open>every line keeps its LF; a last line without one is returned too\<close>
  "readlines [] = []"
| "readlines (c # cs) =
     (if c = LF then [c] # readlines cs
      else (case readlines cs of [] \<Rightarrow> [[c]] | l # ls \<Rightarrow> (c # l) # ls))"

definition read_database_lines :: "store \<Rightarrow> string list" where
  "read_database_lines file =
     (case file of
        None \<Rightarrow> []
      | Some text \<Rightarrow> [strip l. l \<leftarrow> readlines (universal_newlines text), strip l \<noteq> []])"

definition write_database_lines :: "string list \<Rightarrow> store" where
  "write_database_lines ls = Some (join [LF] ls @ (if ls \<noteq> [] then [LF] else []))"

definition field1 :: "string \<Rightarrow> exn + string" where
  \<comment> \<open>\<open>l.split("|")[1]\<close>\<close>
  "field1 l = (case split CHR ''|'' l of p0 # p1 # ps \<Rightarrow> Inr p1 | _ \<Rightarrow> Inl IndexError)"

fun remove_filter :: "string \<Rightarrow> string list \<Rightarrow> exn + string list" where
  \<comment> \<open>\<open>[l for l in lines if not (l.split("|")[1] == container_id)]\<close>\<close>
  "remove_filter container_id [] = Inr []"
| "remove_filter container_id (l # ls) =
     (case field1 l of
        Inl e \<Rightarrow> Inl e
      | Inr f \<Rightarrow>
          (case remove_filter container_id ls of
             Inl e \<Rightarrow> Inl e
           | Inr rest \<Rightarrow> Inr (if f = container_id then rest else l # rest)))"

definition remove_from_database_by_container :: "store \<Rightarrow> string \<Rightarrow> exn + store" where
  \<comment> \<open>\<open>Inl\<close>: the exception leaves the function before the file is opened for writing\<close>
  "remove_from_database_by_container file container_id =
     (case remove_filter container_id (read_database_lines file) of
        Inl e \<Rightarrow> Inl e
      | Inr new_lines \<Rightarrow> Inr (write_database_lines new_lines))"

definition int_or_zero :: "string \<Rightarrow> int" where
  \<comment> \<open>\<open>try: int(ts)\<close>, \<open>except Exception: 0\<close>\<close>
  "int_or_zero ts = (case py_int ts of Some n \<Rightarrow> n | None \<Rightarrow> 0)"

fun servers_loop :: "string \<Rightarrow> string list \<Rightarrow> (string \<times> string \<times> int) list" where
  "servers_loop user [] = []"
| "servers_loop user (line # rest) =
     (case split CHR ''|'' line of
        [u, cid, ssh_cmd, ts] \<Rightarrow>
          (if u = user then (cid, ssh_cmd, int_or_zero ts) # servers_loop user rest
           else servers_loop user rest)
      | _ \<Rightarrow> servers_loop user rest)"

definition get_user_servers :: "store \<Rightarrow> string \<Rightarrow> (string \<times> string \<times> int) list" where
  "get_user_servers file user = servers_loop user (read_database_lines file)"

definition count_user_servers :: "store \<Rightarrow> string \<Rightarrow> nat" where
  "count_user_servers file user = length (get_user_servers file user)"

fun find_loop :: "string \<Rightarrow> (string \<times> string \<times> int) list \<Rightarrow> string option" where
  "find_loop container_name_or_ssh [] = None"
| "find_loop container_name_or_ssh ((cid, ssh_cmd, ts) # rest) =
     (if container_name_or_ssh = cid \<or> contains container_name_or_ssh ssh_cmd then Some cid
      else find_loop container_name_or_ssh rest)"

definition find_container_for_user_by_name :: "store \<Rightarrow> string \<Rightarrow> string \<Rightarrow> string option" where
  "find_container_for_user_by_name file user container_name_or_ssh =
     find_loop container_name_or_ssh (get_user_servers file user)"

section \<open>Capturing the session line\<close>

text \<open>
  The helper's output is the list of what the successive \<open>readline\<close> calls bring, each
  awaited for at most one second: \<open>TimedOut\<close>, or \<open>Got d line\<close>, the decoded line
  (\<open>[]\<close> at end of file) after \<open>d\<close> milliseconds. The clock counts milliseconds from the
  call. Once the list is used up the process stays silent until the deadline.
\<close>

datatype read_event = TimedOut | Got nat string

definition is_session_line :: "string \<Rightarrow> bool" where
  \<comment> \<open>the two tests of the loop body on the stripped line \<open>s\<close>\<close>
  "is_session_line s =
     (let low = lower s in
        (contains ''ssh session'' low \<or> (contains ''ssh'' low \<and> (contains ''@'' s \<or> contains ''-p'' s)))
        \<or> (contains ''forwarding'' low \<or> contains ''http'' low))"

fun capture_loop :: "nat \<Rightarrow> nat \<Rightarrow> read_event list \<Rightarrow> string option \<times> read_event list" where
  "capture_loop deadline now [] = (None, [])"
| "capture_loop deadline now (e # es) =
     (if now < deadline then
        (case e of
           TimedOut \<Rightarrow> capture_loop deadline (now + 1000) es
         | Got d line \<Rightarrow>
             if line = [] then capture_loop deadline (now + d + 100) es
             else let s = strip line in
               if s = [] then capture_loop deadline (now + d) es
               else if is_session_line s then (Some s, es)
               else capture_loop deadline (now + d) es)
      else (None, e # es))"

definition capture_ssh_session_line_from_process ::
    "read_event list \<Rightarrow> nat \<Rightarrow> string option \<times> read_event list" where
  \<comment> \<open>the result and the output left unread\<close>
  "capture_ssh_session_line_from_process process timeout = capture_loop (1000 * timeout) 0 process"

section \<open>Plans and roles\<close>

definition PLANS :: "(string \<times> int) list" where
  "PLANS = [(''basic'', 1), (''second'', 2), (''tritium'', 3), (''loudclass'', 4),
     (''growsof'', 5), (''akama'', 6), (''curious'', 7), (''prembasic'', 8),
     (''premsecond'', 9), (''premtritium'', 10), (''kaze'', 11), (''null'', 12)]"

definition PLAN_ROLE_REQUIREMENTS :: "(string \<times> string option) list" where
  "PLAN_ROLE_REQUIREMENTS = [(''basic'', None), (''second'', Some ''Basic''),
     (''tritium'', Some ''Basic''), (''loudclass'', Some ''Basic''), (''growsof'', Some ''Basic''),
     (''akama'', Some ''Basic''), (''curious'', Some ''Basic''), (''prembasic'', Some ''Premium''),
     (''premsecond'', Some ''Premium''), (''premtritium'', Some ''Premium''),
     (''kaze'', Some ''Premium''), (''null'', Some ''Premium'')]"

definition SERVER_LIMIT_PER_USER :: nat where
  "SERVER_LIMIT_PER_USER = 12"

definition INSTANCE_TTL_SECONDS :: int where
  "INSTANCE_TTL_SECONDS = 30 * 24 * 60 * 60"

definition plan_key :: "string \<Rightarrow> string" where
  \<comment> \<open>\<open>plan_name.lower().replace(" ", "")\<close>\<close>
  "plan_key plan_name = filter (\<lambda>c. c \<noteq> CHR '' '') (lower plan_name)"

definition plan_to_memory_str :: "string \<Rightarrow> string option" where
  "plan_to_memory_str plan_name =
     (if plan_name = [] then None
      else (case map_of PLANS (plan_key plan_name) of
              Some gb \<Rightarrow> Some (str_int gb @ ''g'')
            | None \<Rightarrow> None))"

definition required_role_of :: "string \<Rightarrow> string option" where
  \<comment> \<open>\<open>PLAN_ROLE_REQUIREMENTS.get(key)\<close>: \<open>None\<close> for an open plan and for a missing key\<close>
  "required_role_of plan_name =
     (case map_of PLAN_ROLE_REQUIREMENTS (plan_key plan_name) of
        Some (Some required) \<Rightarrow> Some required
      | _ \<Rightarrow> None)"

record interaction =
  user_str :: string  \<comment> \<open>\<open>str(interaction.user)\<close>\<close>
  member_roles :: "string list option"
    \<comment> \<open>the role names of the member resolved in the guild; \<open>None\<close> when no member resolves\<close>

fun role_loop :: "string \<Rightarrow> string list \<Rightarrow> bool" where
  "role_loop required [] = False"
| "role_loop required (r # rs) = (if lower r = lower required then True else role_loop required rs)"

definition user_has_required_role_for_plan :: "interaction \<Rightarrow> string \<Rightarrow> bool \<times> string option" where
  "user_has_required_role_for_plan itx plan_name =
     (case required_role_of plan_name of
        None \<Rightarrow> (True, None)
      | Some required \<Rightarrow>
          (case member_roles itx of
             Some rs \<Rightarrow> if role_loop required rs then (True, Some required) else (False, Some required)
           | None \<Rightarrow> (False, Some required)))"

section \<open>The world the commands act on\<close>

text \<open>
  A command changes the store and leaves a trace: the Docker commands it invoked, the
  times it opened the store for writing, the messages it sent. What Docker, the helper
  process, the clock and Discord answer is the environment of the call.
\<close>

datatype channel = Ephemeral | Public | DirectMessage | LogChannel | Console

datatype control = Start | Restart | Regen

datatype message =
    UnknownPlan string
  | PermissionDenied string "string option"
  | Creating string string string
  | LimitReached
  | CreateFailed string
  | UnexpectedError string
  | TmateFailed string
  | InstanceCreated string string string string
  | CheckDMs
  | CaptureFailed
  | NoInstanceFound
  | SessionInfo control string string
  | SessionSent control
  | NoSessionCaptured control
  | CommandError control
  | InstanceStopped string
  | StopError
  | InstanceRemoved string string
  | RemoveError exn
  | AutoDeleted string string string
  | CleanupError exn

datatype event = Docker "string list" | FileAppend | FileWrite | Send channel message

record world =
  db :: store
  trace :: "event list"

datatype run_out = Completed string | CalledProcessError string | OtherError string

record environment =
  run_result :: run_out  \<comment> \<open>what \<open>docker run\<close> gives \<open>check_output\<close>\<close>
  command_ok :: bool  \<comment> \<open>exit status zero of a command run with \<open>check=True\<close>\<close>
  exec_error :: "string option"  \<comment> \<open>the exception of \<open>create_subprocess_exec\<close>, if it raises\<close>
  process :: "read_event list"  \<comment> \<open>the output of \<open>tmate -F\<close>\<close>
  clock :: int  \<comment> \<open>\<open>int(time.time())\<close>\<close>
  dm_ok :: bool  \<comment> \<open>\<open>interaction.user.send\<close> succeeds\<close>
  dm_delivered :: "string \<Rightarrow> bool"  \<comment> \<open>a member of that name is found and the send succeeds\<close>
  log_channels :: "bool list"  \<comment> \<open>the log channels found; \<open>True\<close> where the send succeeds\<close>

definition docker :: "string list \<Rightarrow> world \<Rightarrow> world" where
  "docker args w = w\<lparr>trace := trace w @ [Docker (''docker'' # args)]\<rparr>"

definition send :: "channel \<Rightarrow> message \<Rightarrow> world \<Rightarrow> world" where
  "send ch m w = w\<lparr>trace := trace w @ [Send ch m]\<rparr>"

definition append_db :: "int \<Rightarrow> string \<Rightarrow> string \<Rightarrow> string \<Rightarrow> world \<Rightarrow> world" where
  "append_db ts user container_id ssh_command w =
     w\<lparr>db := add_to_database ts (db w) user container_id ssh_command, trace := trace w @ [FileAppend]\<rparr>"

definition write_db :: "string list \<Rightarrow> world \<Rightarrow> world" where
  "write_db ls w = w\<lparr>db := write_database_lines ls, trace := trace w @ [FileWrite]\<rparr>"

section \<open>Deploy\<close>

definition capture_twice :: "read_event list \<Rightarrow> string option" where
  \<comment> \<open>the capture with a timeout of 25 and, if it gives nothing, the one with a timeout of 10\<close>
  "capture_twice proc =
     (case capture_ssh_session_line_from_process proc 25 of
        (Some line, unread) \<Rightarrow> Some line
      | (None, unread) \<Rightarrow> fst (capture_ssh_session_line_from_process unread 10))"

definition deploy_result ::
    "environment \<Rightarrow> interaction \<Rightarrow> string \<Rightarrow> string \<Rightarrow> string \<Rightarrow> string option \<Rightarrow> world \<Rightarrow> world" where
  \<comment> \<open>\<open>if ssh_line: ... else: ...\<close> at the end of \<open>create_instance_task\<close>\<close>
  "deploy_result env itx os_label plan_name container_id ssh_line w =
     (case ssh_line of
        Some line \<Rightarrow>
          let db_ssh = line @ '' | plan='' @ plan_name;
              w1 = append_db (clock env) (user_str itx) container_id db_ssh w
          in if dm_ok env
             then send Ephemeral CheckDMs
                    (send DirectMessage (InstanceCreated os_label container_id line plan_name) w1)
             else send Public (InstanceCreated os_label container_id line plan_name) w1
      | None \<Rightarrow> send Ephemeral CaptureFailed (docker [''rm'', ''-f'', container_id] w))"

definition deploy_container ::
    "environment \<Rightarrow> interaction \<Rightarrow> string \<Rightarrow> string \<Rightarrow> string \<Rightarrow> world \<Rightarrow> world" where
  \<comment> \<open>from \<open>docker exec ... tmate -F\<close> on, for the container that \<open>docker run\<close> created\<close>
  "deploy_container env itx os_label plan_name container_id w =
     (case exec_error env of
        Some e \<Rightarrow> send Ephemeral (TmateFailed e) (docker [''rm'', ''-f'', container_id] w)
      | None \<Rightarrow>
          deploy_result env itx os_label plan_name container_id (capture_twice (process env))
            (docker [''exec'', container_id, ''tmate'', ''-F''] w))"

definition deploy_run ::
    "environment \<Rightarrow> interaction \<Rightarrow> string \<Rightarrow> string \<Rightarrow> string \<Rightarrow> string \<Rightarrow> world \<Rightarrow> world" where
  \<comment> \<open>from the quota check on\<close>
  "deploy_run env itx image_name os_label plan_name mem_str w =
     (if count_user_servers (db w) (user_str itx) \<ge> SERVER_LIMIT_PER_USER
      then send Ephemeral LimitReached w
      else
        let w1 = docker [''run'', ''-d'', ''--memory'', mem_str, ''--privileged'',
                         ''--cap-add=ALL'', image_name, ''/sbin/init''] w in
        (case run_result env of
           CalledProcessError err \<Rightarrow> send Ephemeral (CreateFailed err) w1
         | OtherError e \<Rightarrow> send Ephemeral (UnexpectedError e) w1
         | Completed out \<Rightarrow> deploy_container env itx os_label plan_name (strip out) w1))"

definition create_instance_task ::
    "environment \<Rightarrow> interaction \<Rightarrow> string \<Rightarrow> string \<Rightarrow> string \<Rightarrow> world \<Rightarrow> world" where
  "create_instance_task env itx image_name os_label plan_name w =
     (case plan_to_memory_str plan_name of
        None \<Rightarrow> send Ephemeral (UnknownPlan plan_name) w
      | Some mem_str \<Rightarrow>
          let allowed = fst (user_has_required_role_for_plan itx plan_name);
              required_role = snd (user_has_required_role_for_plan itx plan_name)
          in if \<not> allowed then send Ephemeral (PermissionDenied plan_name required_role) w
             else deploy_run env itx image_name os_label plan_name mem_str
                    (send Ephemeral (Creating os_label plan_name mem_str) w))"

section \<open>Start, stop, restart, regenerate, remove\<close>

text \<open>
  A command returns the world it leaves and the exception that escapes it, if one does.
  The callers test \<open>if not cid\<close>, so an empty instance id counts as not found.
\<close>

fun rewrite_loop :: "string \<Rightarrow> string \<Rightarrow> string list \<Rightarrow> exn + string list" where
  \<comment> \<open>the loop that builds \<open>new\<close> in \<open>cmd_start\<close>, \<open>cmd_restart\<close> and \<open>cmd_regen_ssh\<close>\<close>
  "rewrite_loop cid ssh_line [] = Inr []"
| "rewrite_loop cid ssh_line (l # ls) =
     (case field1 l of
        Inl e \<Rightarrow> Inl e
      | Inr f \<Rightarrow>
          (case rewrite_loop cid ssh_line ls of
             Inl e \<Rightarrow> Inl e
           | Inr rest \<Rightarrow>
               Inr ((if f = cid
                     then (case split CHR ''|'' l of
                             [p0, p1, p2, p3] \<Rightarrow> join ''|'' [p0, p1, ssh_line, p3]
                           | _ \<Rightarrow> l)
                     else l) # rest)))"

definition update_ssh :: "control \<Rightarrow> environment \<Rightarrow> string \<Rightarrow> string \<Rightarrow> world \<Rightarrow> world \<times> exn option" where
  \<comment> \<open>the branch \<open>if ssh_line:\<close> of the three commands\<close>
  "update_ssh k env cid ssh_line w =
     (case rewrite_loop cid ssh_line (read_database_lines (db w)) of
        Inl e \<Rightarrow> (w, Some e)
      | Inr new \<Rightarrow>
          let w1 = write_db new w in
          (if dm_ok env
           then send Ephemeral (SessionSent k) (send DirectMessage (SessionInfo k cid ssh_line) w1)
           else send Public (SessionInfo k cid ssh_line) w1, None))"

definition recapture :: "control \<Rightarrow> environment \<Rightarrow> string \<Rightarrow> world \<Rightarrow> world \<times> exn option" where
  \<comment> \<open>\<open>docker exec cid tmate -F\<close>, the capture with a timeout of 15, then the update\<close>
  "recapture k env cid w =
     (case exec_error env of
        Some e \<Rightarrow> (w, Some (OtherException e))
      | None \<Rightarrow>
          let w1 = docker [''exec'', cid, ''tmate'', ''-F''] w in
          (case fst (capture_ssh_session_line_from_process (process env) 15) of
             Some ssh_line \<Rightarrow> update_ssh k env cid ssh_line w1
           | None \<Rightarrow> (send Ephemeral (NoSessionCaptured k) w1, None)))"

definition cmd_start :: "environment \<Rightarrow> interaction \<Rightarrow> string \<Rightarrow> world \<Rightarrow> world \<times> exn option" where
  "cmd_start env itx container_name w =
     (case find_container_for_user_by_name (db w) (user_str itx) container_name of
        None \<Rightarrow> (send Ephemeral NoInstanceFound w, None)
      | Some cid \<Rightarrow>
          if cid = [] then (send Ephemeral NoInstanceFound w, None)
          else
            let w1 = docker [''start'', cid] w in
            if \<not> command_ok env then (send Ephemeral (CommandError Start) w1, None)
            else recapture Start env cid w1)"

definition cmd_stop :: "environment \<Rightarrow> interaction \<Rightarrow> string \<Rightarrow> world \<Rightarrow> world \<times> exn option" where
  "cmd_stop env itx container_name w =
     (case find_container_for_user_by_name (db w) (user_str itx) container_name of
        None \<Rightarrow> (send Ephemeral NoInstanceFound w, None)
      | Some cid \<Rightarrow>
          if cid = [] then (send Ephemeral NoInstanceFound w, None)
          else
            let w1 = docker [''stop'', cid] w in
            if \<not> command_ok env then (send Ephemeral StopError w1, None)
            else (send Ephemeral (InstanceStopped cid) w1, None))"

definition cmd_restart :: "environment \<Rightarrow> interaction \<Rightarrow> string \<Rightarrow> world \<Rightarrow> world \<times> exn option" where
  "cmd_restart env itx container_name w =
     (case find_container_for_user_by_name (db w) (user_str itx) container_name of
        None \<Rightarrow> (send Ephemeral NoInstanceFound w, None)
      | Some cid \<Rightarrow>
          if cid = [] then (send Ephemeral NoInstanceFound w, None)
          else
            let w1 = docker [''restart'', cid] w in
            if \<not> command_ok env then (send Ephemeral (CommandError Restart) w1, None)
            else recapture Restart env cid w1)"

definition cmd_regen_ssh :: "environment \<Rightarrow> interaction \<Rightarrow> string \<Rightarrow> world \<Rightarrow> world \<times> exn option" where
  \<comment> \<open>\<open>except Exception\<close> turns every exception into the error message\<close>
  "cmd_regen_ssh env itx container_name w =
     (case find_container_for_user_by_name (db w) (user_str itx) container_name of
        None \<Rightarrow> (send Ephemeral NoInstanceFound w, None)
      | Some cid \<Rightarrow>
          if cid = [] then (send Ephemeral NoInstanceFound w, None)
          else
            (case recapture Regen env cid w of
               (w1, Some e) \<Rightarrow> (send Ephemeral (CommandError Regen) w1, None)
             | (w1, None) \<Rightarrow> (w1, None)))"

fun log_loop :: "message \<Rightarrow> bool list \<Rightarrow> world \<Rightarrow> world" where
  \<comment> \<open>\<open>for ch in channels: try: await ch.send(...)\<close>, \<open>except Exception: pass\<close>\<close>
  "log_loop m [] w = w"
| "log_loop m (ok # chs) w = log_loop m chs (if ok then send LogChannel m w else w)"

definition cmd_remove :: "environment \<Rightarrow> interaction \<Rightarrow> string \<Rightarrow> world \<Rightarrow> world \<times> exn option" where
  "cmd_remove env itx container_name w =
     (case find_container_for_user_by_name (db w) (user_str itx) container_name of
        None \<Rightarrow> (send Ephemeral NoInstanceFound w, None)
      | Some cid \<Rightarrow>
          if cid = [] then (send Ephemeral NoInstanceFound w, None)
          else
            let w1 = docker [''rm'', ''-f'', cid] (docker [''stop'', cid] w) in
            (case remove_from_database_by_container (db w1) cid of
               Inl e \<Rightarrow> (send Ephemeral (RemoveError e) w1, None)
             | Inr file \<Rightarrow>
                 let w2 = w1\<lparr>db := file, trace := trace w1 @ [FileWrite]\<rparr>;
                     w3 = (if dm_ok env then send DirectMessage (InstanceRemoved (user_str itx) cid) w2
                           else w2);
                     w4 = log_loop (InstanceRemoved (user_str itx) cid) (log_channels env) w3
                 in (send Ephemeral (InstanceRemoved (user_str itx) cid) w4, None)))"

section \<open>The expiry sweeper\<close>

definition notify_deletion :: "environment \<Rightarrow> string \<Rightarrow> string \<Rightarrow> string \<Rightarrow> world \<Rightarrow> world" where
  "notify_deletion env user_name container_id ssh_cmd w =
     (let dm_sent = dm_delivered env user_name;
          w1 = (if dm_sent then send DirectMessage (AutoDeleted user_name container_id ssh_cmd) w else w);
          w2 = log_loop (AutoDeleted user_name container_id ssh_cmd) (log_channels env) w1
      in if \<not> dm_sent \<and> log_channels env = []
         then send Console (AutoDeleted user_name container_id ssh_cmd) w2
         else w2)"

fun scan_loop :: "int \<Rightarrow> string list \<Rightarrow> world \<Rightarrow> world \<times> (string \<times> string \<times> string) list" where
  \<comment> \<open>the \<open>for line in lines\<close> loop: the world it leaves and \<open>removed_items\<close>\<close>
  "scan_loop now [] w = (w, [])"
| "scan_loop now (line # rest) w =
     (case split CHR ''|'' line of
        [user, cid, ssh_cmd, ts] \<Rightarrow>
          (let created = int_or_zero ts;
               age = now - created
           in if age \<ge> INSTANCE_TTL_SECONDS
              then (case scan_loop now rest (docker [''rm'', ''-f'', cid] (docker [''stop'', cid] w)) of
                      (w', removed_items) \<Rightarrow> (w', (user, cid, ssh_cmd) # removed_items))
              else scan_loop now rest w)
      | _ \<Rightarrow> scan_loop now rest w)"

fun any_removed :: "string \<Rightarrow> (string \<times> string \<times> string) list \<Rightarrow> exn + bool" where
  \<comment> \<open>\<open>any((l.split("|")[1] == cid) for (_, cid, _) in removed_items)\<close>\<close>
  "any_removed l [] = Inr False"
| "any_removed l ((user, cid, ssh_cmd) # removed_items) =
     (case field1 l of
        Inl e \<Rightarrow> Inl e
      | Inr f \<Rightarrow> if f = cid then Inr True else any_removed l removed_items)"

fun remain_filter :: "(string \<times> string \<times> string) list \<Rightarrow> string list \<Rightarrow> exn + string list" where
  "remain_filter removed_items [] = Inr []"
| "remain_filter removed_items (l # ls) =
     (case any_removed l removed_items of
        Inl e \<Rightarrow> Inl e
      | Inr hit \<Rightarrow>
          (case remain_filter removed_items ls of
             Inl e \<Rightarrow> Inl e
           | Inr rest \<Rightarrow> Inr (if hit then rest else l # rest)))"

fun notify_loop :: "environment \<Rightarrow> (string \<times> string \<times> string) list \<Rightarrow> world \<Rightarrow> world" where
  "notify_loop env [] w = w"
| "notify_loop env ((user, cid, ssh_cmd) # removed_items) w =
     notify_loop env removed_items (notify_deletion env user cid ssh_cmd w)"

definition cleanup_old_instances :: "environment \<Rightarrow> world \<Rightarrow> world" where
  \<comment> \<open>one run; \<open>clock env\<close> is \<open>now\<close>. The outer \<open>except Exception\<close> prints the error.\<close>
  "cleanup_old_instances env w =
     (let ls = read_database_lines (db w) in
      if ls = [] then w
      else
        (case scan_loop (clock env) ls w of
           (w1, removed_items) \<Rightarrow>
             if removed_items = [] then w1
             else
               (case remain_filter removed_items ls of
                  Inl e \<Rightarrow> send Console (CleanupError e) w1
                | Inr remain_lines \<Rightarrow> notify_loop env removed_items (write_db remain_lines w1))))"

section \<open>Notions used in the properties\<close>

definition stored_line :: "string \<Rightarrow> bool" where
  \<comment> \<open>a line as \<open>read_database_lines\<close> returns it and \<open>write_database_lines\<close> keeps it\<close>
  "stored_line l = (l \<noteq> [] \<and> strip l = l \<and> LF \<notin> set l \<and> CR \<notin> set l)"

definition member_role_names :: "interaction \<Rightarrow> string list" where
  \<comment> \<open>the capability tags of the user: none when no member resolves\<close>
  "member_role_names itx = (case member_roles itx of None \<Rightarrow> [] | Some rs \<Rightarrow> rs)"

definition fresh_world :: world where
  \<comment> \<open>before the first command: no store file, nothing done yet\<close>
  "fresh_world = \<lparr>db = None, trace = []\<rparr>"

definition alice_env :: environment where
  \<comment> \<open>the stub runtime of the deploy scenario: instance \<open>c1\<close>, one line of helper output\<close>
  "alice_env = \<lparr>run_result = Completed (''c1'' @ [LF]), command_ok = True, exec_error = None,
     process = [Got 10 (''ssh session: alice@host -p 2222'' @ [LF])], clock = 1700000000,
     dm_ok = True, dm_delivered = (\<lambda>u. True), log_channels = [True]\<rparr>"

definition two_owner_store :: store where
  \<comment> \<open>a store with one record of \<open>alice\<close> and one of \<open>bob\<close>\<close>
  "two_owner_store = Some (''alice|c1|ssh a1@host|1700000000'' @ [LF]
     @ ''bob|c2|ssh b2@host|1700000001'' @ [LF])"

definition record_line :: "string \<times> string \<times> string \<times> string \<Rightarrow> string" where
  \<comment> \<open>the line of a record \<open>(owner, instance id, connection string, created_at)\<close>\<close>
  "record_line r = (case r of (owner, cid, ssh, ts) \<Rightarrow> owner @ ''|'' @ cid @ ''|'' @ ssh @ ''|'' @ ts)"

definition well_formed_record :: "string \<times> string \<times> string \<times> string \<Rightarrow> bool" where
  \<comment> \<open>four fields without separator or line break, on a line that \<open>strip\<close> leaves as it is
      (no white space before the owner or after the timestamp)\<close>
  "well_formed_record r =
     (case r of (owner, cid, ssh, ts) \<Rightarrow>
        list_all (\<lambda>x. CHR ''|'' \<notin> set x \<and> LF \<notin> set x \<and> CR \<notin> set x) [owner, cid, ssh, ts]
        \<and> strip (record_line r) = record_line r)"

definition mixed_store :: store where
  \<comment> \<open>two well-formed lines around a line of three fields and a line of five\<close>
  "mixed_store = Some (''alice|c1|ssh a1@host|1700000000'' @ [LF] @ ''alice|broken|line'' @ [LF]
     @ ''alice|c3|ssh a3@host | plan=basic|1700000002'' @ [LF]
     @ ''alice|c4|ssh a4@host|1700000003'' @ [LF])"

definition alice :: interaction where
  \<comment> \<open>the owner of the deploy scenario, with no role\<close>
  "alice = \<lparr>user_str = ''alice'', member_roles = Some []\<rparr>"

definition timeout_env :: environment where
  \<comment> \<open>the stub runtime whose helper prints no session line\<close>
  "timeout_env = \<lparr>run_result = Completed (''c1'' @ [LF]), command_ok = True, exec_error = None,
     process = [TimedOut, Got 5 (''Welcome'' @ [LF]), TimedOut], clock = 1700000000,
     dm_ok = True, dm_delivered = (\<lambda>u. True), log_channels = [True]\<rparr>"

fun event_time :: "read_event \<Rightarrow> nat" where
  \<comment> \<open>the time one turn of the capture loop takes: the wait for \<open>readline\<close>, and the sleep at
      end of file\<close>
  "event_time TimedOut = 1000"
| "event_time (Got d line) = (if line = [] then d + 100 else d)"

fun accepted :: "read_event \<Rightarrow> bool" where
  \<comment> \<open>the loop returns on this event\<close>
  "accepted TimedOut = False"
| "accepted (Got d line) = (strip line \<noteq> [] \<and> is_session_line (strip line))"

definition instance_id_of :: "string \<Rightarrow> string" where
  \<comment> \<open>the second field of a line that has one\<close>
  "instance_id_of l = (case split CHR ''|'' l of p0 # p1 # ps \<Rightarrow> p1 | _ \<Rightarrow> [])"

definition expired :: "int \<Rightarrow> string \<Rightarrow> bool" where
  \<comment> \<open>a four-field line whose age at \<open>now\<close> has reached the time to live; a timestamp that
      is no integer counts as 0\<close>
  "expired now l =
     (case split CHR ''|'' l of
        [user, cid, ssh_cmd, ts] \<Rightarrow> now - int_or_zero ts \<ge> INSTANCE_TTL_SECONDS
      | _ \<Rightarrow> False)"

definition removed_item :: "string \<Rightarrow> string \<times> string \<times> string" where
  \<comment> \<open>owner, instance id and connection string of a four-field line\<close>
  "removed_item l =
     (case split CHR ''|'' l of [user, cid, ssh_cmd, ts] \<Rightarrow> (user, cid, ssh_cmd) | _ \<Rightarrow> ([], [], []))"

definition teardown :: "string \<Rightarrow> event list" where
  \<comment> \<open>stop and destroy the instance of a line\<close>
  "teardown l = [Docker [''docker'', ''stop'', instance_id_of l],
                 Docker [''docker'', ''rm'', ''-f'', instance_id_of l]]"

definition notify_events :: "environment \<Rightarrow> string \<Rightarrow> string \<Rightarrow> string \<Rightarrow> event list" where
  \<comment> \<open>what one \<open>notify_deletion\<close> sends: the owner notification when a member of that name is
      found and the send succeeds, one audit notification for each log channel that
      accepts it, and the console line when the owner is not reached and no log channel
      is found\<close>
  "notify_events env user_name container_id ssh_cmd =
     (if dm_delivered env user_name
      then [Send DirectMessage (AutoDeleted user_name container_id ssh_cmd)] else [])
     @ map (\<lambda>ok. Send LogChannel (AutoDeleted user_name container_id ssh_cmd))
         (filter (\<lambda>ok. ok) (log_channels env))
     @ (if \<not> dm_delivered env user_name \<and> log_channels env = []
        then [Send Console (AutoDeleted user_name container_id ssh_cmd)] else [])"

definition removal_notices :: "environment \<Rightarrow> string \<Rightarrow> event list" where
  \<comment> \<open>the \<open>notify_deletion\<close> for a removed line\<close>
  "removal_notices env l =
     (case removed_item l of (user, cid, ssh_cmd) \<Rightarrow> notify_events env user cid ssh_cmd)"

definition garbage_world :: world where
  \<comment> \<open>a store with an old record and a line without separator\<close>
  "garbage_world = \<lparr>db = Some (''alice|c1|ssh a1@host|1000'' @ [LF] @ ''garbage'' @ [LF]), trace = []\<rparr>"

definition old_and_young_world :: world where
  \<comment> \<open>a store with a record created at 1000 and one created at 1700000000\<close>
  "old_and_young_world = \<lparr>db = Some (''alice|c1|ssh a1@host|1000'' @ [LF]
     @ ''bob|c2|ssh b2@host|1700000000'' @ [LF]), trace = []\<rparr>"

definition young_world :: world where
  \<comment> \<open>a store with one record created at 1700000000\<close>
  "young_world = \<lparr>db = Some (''bob|c2|ssh b2@host|1700000000'' @ [LF]), trace = []\<rparr>"

definition shared_id_world :: world where
  \<comment> \<open>an old and a young record with the same instance id\<close>
  "shared_id_world = \<lparr>db = Some (''alice|c1|ssh a1@host|1000'' @ [LF]
     @ ''bob|c1|ssh b2@host|1700000000'' @ [LF]), trace = []\<rparr>"

definition deaf_env :: environment where
  \<comment> \<open>no member of the owner's name is found and there is no log channel\<close>
  "deaf_env = \<lparr>run_result = Completed (''c1'' @ [LF]), command_ok = True, exec_error = None,
     process = [], clock = 1700000000, dm_ok = False, dm_delivered = (\<lambda>u. False),
     log_channels = []\<rparr>"

definition two_owner_world :: world where
  "two_owner_world = \<lparr>db = two_owner_store, trace = []\<rparr>"

definition pipe_env :: environment where
  \<comment> \<open>the helper prints a session line that holds the field separator\<close>
  "pipe_env = \<lparr>run_result = Completed (''c1'' @ [LF]), command_ok = True, exec_error = None,
     process = [Got 10 (''ssh session | ssh a1@host'' @ [LF])], clock = 1700000000,
     dm_ok = True, dm_delivered = (\<lambda>u. True), log_channels = [True]\<rparr>"

section \<open>Facts about the string functions\<close>

lemma split_not_Nil [simp]: "split sep s \<noteq> []"
  by (induction s) (auto split: list.split)

lemma length_split: "length (split sep s) = Suc (length (filter (\<lambda>c. c = sep) s))"
proof (induction s)
  case Nil
  show ?case by simp
next
  case (Cons c cs)
  then show ?case by (cases "split sep cs") auto
qed

lemma split_pieces: "w \<in> set (split sep s) \<Longrightarrow> sep \<notin> set w"
proof (induction s arbitrary: w)
  case Nil
  then show ?case by simp
next
  case (Cons c cs)
  then show ?case by (cases "split sep cs") (auto split: if_splits)
qed

lemma split_no_sep: "sep \<notin> set a \<Longrightarrow> split sep a = [a]"
  by (induction a) auto

lemma split_append: "sep \<notin> set a \<Longrightarrow> split sep (a @ sep # b) = a # split sep b"
  by (induction a) auto

lemma join_Cons_Cons: "join sep ((c # w) # ws) = c # join sep (w # ws)"
  by (cases ws) auto

lemma join_split: "join [sep] (split sep s) = s"
proof (induction s)
  case Nil
  show ?case by simp
next
  case (Cons c cs)
  show ?case
  proof (cases "c = sep")
    case True
    with Cons show ?thesis by (cases "split sep cs") auto
  next
    case False
    with Cons show ?thesis by (cases "split sep cs") (auto simp: join_Cons_Cons)
  qed
qed

lemma split_join:
  "xs \<noteq> [] \<Longrightarrow> \<forall>x\<in>set xs. sep \<notin> set x \<Longrightarrow> split sep (join [sep] xs) = xs"
proof (induction "[sep]" xs rule: join.induct)
  case 1
  then show ?case by simp
next
  case (2 x)
  then show ?case by (simp add: split_no_sep)
next
  case (3 x y ys)
  then show ?case by (simp add: split_append)
qed

lemma startswith_iff: "startswith s p \<longleftrightarrow> (\<exists>q. s = p @ q)"
  by (induction s p rule: startswith.induct) auto

lemma contains_iff: "contains sub s \<longleftrightarrow> (\<exists>p q. s = p @ sub @ q)"
proof (induction s)
  case Nil
  show ?case by auto
next
  case (Cons c cs)
  show ?case
  proof
    assume "contains sub (c # cs)"
    then consider "startswith (c # cs) sub" | "contains sub cs" by auto
    then show "\<exists>p q. c # cs = p @ sub @ q"
    proof cases
      case 1
      then obtain q where "c # cs = sub @ q" by (auto simp: startswith_iff)
      then have "c # cs = [] @ sub @ q" by simp
      then show ?thesis by blast
    next
      case 2
      with Cons obtain p q where "cs = p @ sub @ q" by blast
      then have "c # cs = (c # p) @ sub @ q" by simp
      then show ?thesis by blast
    qed
  next
    assume "\<exists>p q. c # cs = p @ sub @ q"
    then obtain p q where pq: "c # cs = p @ sub @ q" by blast
    show "contains sub (c # cs)"
    proof (cases p)
      case Nil
      with pq have "startswith (c # cs) sub" by (auto simp: startswith_iff)
      then show ?thesis by simp
    next
      case (Cons a p')
      with pq have "cs = p' @ sub @ q" by simp
      with Cons.IH show ?thesis by auto
    qed
  qed
qed

lemma isspace_LF [simp]: "isspace LF" by (simp add: isspace_def)
lemma isspace_CR [simp]: "isspace CR" by (simp add: isspace_def)
lemma not_isspace_bar [simp]: "\<not> isspace CHR ''|''" by (simp add: isspace_def)

lemma strip_decomp:
  "\<exists>a b. s = a @ strip s @ b \<and> (\<forall>c\<in>set a. isspace c) \<and> (\<forall>c\<in>set b. isspace c)"
proof -
  define d where "d = dropWhile isspace s"
  have s: "s = takeWhile isspace s @ d" by (simp add: d_def)
  have "rev (dropWhile isspace (rev d)) @ rev (takeWhile isspace (rev d))
          = rev (takeWhile isspace (rev d) @ dropWhile isspace (rev d))"
    by (simp only: rev_append)
  also have "\<dots> = d" by simp
  finally have d: "d = strip s @ rev (takeWhile isspace (rev d))"
    by (simp add: strip_def d_def)
  have "s = takeWhile isspace s @ strip s @ rev (takeWhile isspace (rev d))"
    using s d by simp
  moreover have "\<forall>c\<in>set (takeWhile isspace s). isspace c" by (auto dest: set_takeWhileD)
  moreover have "\<forall>c\<in>set (rev (takeWhile isspace (rev d))). isspace c" by (auto dest: set_takeWhileD)
  ultimately show ?thesis by blast
qed

lemma set_strip: "set (strip s) \<subseteq> set s"
  using strip_decomp [of s] by (metis Un_upper1 Un_upper2 set_append subset_trans)

lemma strip_ends: "strip s \<noteq> [] \<Longrightarrow> \<not> isspace (hd (strip s)) \<and> \<not> isspace (last (strip s))"
proof -
  assume ne: "strip s \<noteq> []"
  define d where "d = dropWhile isspace s"
  define e where "e = dropWhile isspace (rev d)"
  have st: "strip s = rev e" by (simp add: strip_def d_def e_def)
  with ne have e: "e \<noteq> []" by simp
  then have he: "\<not> isspace (hd e)" unfolding e_def by (rule hd_dropWhile)
  have "last (strip s) = hd e" using e st by (simp add: last_rev)
  with he have l: "\<not> isspace (last (strip s))" by simp
  have "set e \<subseteq> set d" unfolding e_def using set_dropWhileD by fastforce
  have dne: "d \<noteq> []" using e e_def by auto
  then have hd: "\<not> isspace (hd d)" unfolding d_def by (rule hd_dropWhile)
  have "rev d = takeWhile isspace (rev d) @ e" by (simp add: e_def)
  then have "d = rev e @ rev (takeWhile isspace (rev d))"
    by (metis rev_append rev_rev_ident)
  then have "hd d = hd (rev e)" using e by (metis hd_append2 rev_is_Nil_conv)
  with hd st have "\<not> isspace (hd (strip s))" by simp
  with l show ?thesis by simp
qed

lemma strip_id: "s \<noteq> [] \<Longrightarrow> \<not> isspace (hd s) \<Longrightarrow> \<not> isspace (last s) \<Longrightarrow> strip s = s"
proof -
  assume a: "s \<noteq> []" "\<not> isspace (hd s)" "\<not> isspace (last s)"
  then have d: "dropWhile isspace s = s" by (cases s) auto
  from a have "dropWhile isspace (rev s) = rev s" by (cases "rev s") (auto simp: hd_rev)
  with d show ?thesis by (simp add: strip_def)
qed

lemma strip_Nil [simp]: "strip [] = []"
  by (simp add: strip_def)

lemma strip_idem: "strip (strip s) = strip s"
proof (cases "strip s = []")
  case True
  then show ?thesis by simp
next
  case False
  then show ?thesis using strip_ends [of s] by (simp add: strip_id)
qed

lemma strip_append_space: "\<forall>c\<in>set b. isspace c \<Longrightarrow> strip (s @ b) = strip s"
proof -
  assume b: "\<forall>c\<in>set b. isspace c"
  have r: "dropWhile isspace (rev b @ t) = dropWhile isspace t" for t
    by (rule dropWhile_append2) (use b in auto)
  show ?thesis
  proof (cases "\<forall>c\<in>set s. isspace c")
    case True
    with b have "\<forall>c\<in>set (s @ b). isspace c" by auto
    then have "dropWhile isspace (s @ b) = []" by (simp only: dropWhile_eq_Nil_conv)
    moreover from True have "dropWhile isspace s = []" by (simp only: dropWhile_eq_Nil_conv)
    ultimately show ?thesis by (simp only: strip_def)
  next
    case False
    then obtain x where "x \<in> set s" "\<not> isspace x" by blast
    then have "dropWhile isspace (s @ b) = dropWhile isspace s @ b"
      by (rule dropWhile_append1)
    then show ?thesis by (simp add: strip_def r)
  qed
qed

lemma filter_strip: "\<not> isspace x \<Longrightarrow> filter (\<lambda>c. c = x) (strip s) = filter (\<lambda>c. c = x) s"
proof -
  assume x: "\<not> isspace x"
  obtain a b where s: "s = a @ strip s @ b" and a: "\<forall>c\<in>set a. isspace c" and b: "\<forall>c\<in>set b. isspace c"
    using strip_decomp by blast
  have "filter (\<lambda>c. c = x) a = []" "filter (\<lambda>c. c = x) b = []" using a b x by (auto simp: filter_empty_conv)
  then have "filter (\<lambda>c. c = x) (a @ strip s @ b) = filter (\<lambda>c. c = x) (strip s)" by simp
  with s show ?thesis by simp
qed

section \<open>Facts about reading and writing the store\<close>

lemma universal_newlines_id: "CR \<notin> set t \<Longrightarrow> universal_newlines t = t"
  by (induction t rule: universal_newlines.induct) auto

lemma universal_newlines_set: "set (universal_newlines t) \<subseteq> (set t - {CR}) \<union> {LF}"
  by (induction t rule: universal_newlines.induct) auto

lemma readlines_line: "LF \<notin> set l \<Longrightarrow> readlines (l @ LF # rest) = (l @ [LF]) # readlines rest"
  by (induction l) auto

lemma readlines_concat:
  "\<forall>l\<in>set ls. LF \<notin> set l \<Longrightarrow> readlines (concat (map (\<lambda>l. l @ [LF]) ls)) = map (\<lambda>l. l @ [LF]) ls"
  by (induction ls) (auto simp: readlines_line)

lemma readlines_shape:
  "l \<in> set (readlines t) \<Longrightarrow> l \<noteq> [] \<and> LF \<notin> set (butlast l) \<and> set l \<subseteq> set t"
proof (induction t arbitrary: l)
  case Nil
  then show ?case by simp
next
  case (Cons c cs)
  show ?case
  proof (cases "c = LF")
    case True
    with Cons show ?thesis by auto
  next
    case False
    show ?thesis
    proof (cases "readlines cs")
      case Nil
      with False Cons.prems show ?thesis by auto
    next
      case (Cons k ks)
      with False Cons.prems have "l = c # k \<or> l \<in> set ks" by auto
      then show ?thesis
      proof
        assume l: "l = c # k"
        have "k \<in> set (readlines cs)" using Cons by simp
        then have "k \<noteq> [] \<and> LF \<notin> set (butlast k) \<and> set k \<subseteq> set cs" by (rule Cons.IH)
        with l False show ?thesis by auto
      next
        assume "l \<in> set ks"
        then have "l \<in> set (readlines cs)" using Cons by simp
        then have "l \<noteq> [] \<and> LF \<notin> set (butlast l) \<and> set l \<subseteq> set cs" by (rule Cons.IH)
        then show ?thesis by auto
      qed
    qed
  qed
qed

lemma join_LF: "ls \<noteq> [] \<Longrightarrow> join [LF] ls @ [LF] = concat (map (\<lambda>l. l @ [LF]) ls)"
  by (induction "[LF]" ls rule: join.induct) auto

lemma strip_line: "strip (l @ [LF]) = strip l"
  by (rule strip_append_space) simp

lemma read_write:
  assumes "\<forall>l\<in>set ls. stored_line l"
  shows "read_database_lines (write_database_lines ls) = ls"
proof (cases "ls = []")
  case True
  then show ?thesis by (simp add: read_database_lines_def write_database_lines_def)
next
  case False
  let ?t = "concat (map (\<lambda>l. l @ [LF]) ls)"
  have w: "write_database_lines ls = Some ?t"
    using False by (simp add: write_database_lines_def join_LF)
  have "CR \<notin> set ?t" using assms by (auto simp: stored_line_def)
  then have u: "universal_newlines ?t = ?t" by (rule universal_newlines_id)
  have r: "readlines ?t = map (\<lambda>l. l @ [LF]) ls"
    using assms by (intro readlines_concat) (auto simp: stored_line_def)
  have "[strip l. l \<leftarrow> map (\<lambda>l. l @ [LF]) ls, strip l \<noteq> []] = ls"
    using assms by (induction ls) (auto simp: strip_line stored_line_def)
  then show ?thesis by (simp add: read_database_lines_def w u r)
qed

lemma strip_no_LF:
  assumes "LF \<notin> set (butlast l)"
  shows "LF \<notin> set (strip l)"
proof
  assume in_strip: "LF \<in> set (strip l)"
  then have ne: "strip l \<noteq> []" by auto
  obtain a b where l: "l = a @ strip l @ b" using strip_decomp by blast
  obtain xs y where xy: "strip l = xs @ [y]" using ne by (meson rev_exhaust)
  have "y \<noteq> LF" using strip_ends [OF ne] xy by auto
  with in_strip xy have "LF \<in> set xs" by auto
  moreover have "l = (a @ xs) @ (y # b)" using l xy by simp
  then have "butlast l = (a @ xs) @ butlast (y # b)" by (simp only: butlast_append) simp
  ultimately have "LF \<in> set (butlast l)" by simp
  with assms show False by simp
qed

lemma read_stored: "l \<in> set (read_database_lines f) \<Longrightarrow> stored_line l"
proof (cases f)
  case None
  assume "l \<in> set (read_database_lines f)"
  with None show ?thesis by (simp add: read_database_lines_def)
next
  case (Some t)
  assume "l \<in> set (read_database_lines f)"
  with Some obtain k where k: "k \<in> set (readlines (universal_newlines t))" and l: "l = strip k" and ne: "strip k \<noteq> []"
    by (auto simp: read_database_lines_def)
  from k have sh: "LF \<notin> set (butlast k)" "set k \<subseteq> set (universal_newlines t)"
    using readlines_shape by blast+
  then have "CR \<notin> set k" using universal_newlines_set [of t] by auto
  then have "CR \<notin> set (strip k)" using set_strip [of k] by auto
  moreover have "LF \<notin> set (strip k)" using sh(1) by (rule strip_no_LF)
  ultimately show ?thesis using l ne by (simp add: stored_line_def strip_idem)
qed

section \<open>Facts about the record readers\<close>

lemma servers_loop_set:
  "(cid, ssh, n) \<in> set (servers_loop u ls) \<longleftrightarrow>
     (\<exists>l\<in>set ls. \<exists>ts. split CHR ''|'' l = [u, cid, ssh, ts] \<and> n = int_or_zero ts)"
proof (induction ls)
  case Nil
  show ?case by simp
next
  case (Cons l ls)
  show ?case
  proof (cases "\<exists>a b c d. split CHR ''|'' l = [a, b, c, d]")
    case True
    then obtain a b c d where s: "split CHR ''|'' l = [a, b, c, d]" by blast
    with Cons show ?thesis by auto
  next
    case False
    then have "servers_loop u (l # ls) = servers_loop u ls"
      by (auto split: list.splits)
    with False Cons show ?thesis by auto
  qed
qed

lemma find_loop_Some:
  "find_loop i xs = Some cid \<Longrightarrow>
     \<exists>ssh n. (cid, ssh, n) \<in> set xs \<and> (i = cid \<or> contains i ssh)"
  by (induction i xs rule: find_loop.induct) (auto split: if_splits)

lemma find_loop_None:
  "find_loop i xs = None \<longleftrightarrow> (\<forall>(cid, ssh, n)\<in>set xs. \<not> (i = cid \<or> contains i ssh))"
  by (induction i xs rule: find_loop.induct) auto

lemma servers_loop_append: "servers_loop u (xs @ ys) = servers_loop u xs @ servers_loop u ys"
  by (induction xs) (auto split: list.splits)

lemma servers_loop_skip:
  "length (split CHR ''|'' l) \<noteq> 4 \<Longrightarrow> servers_loop u (l # ls) = servers_loop u ls"
  by (auto split: list.splits)

section \<open>Facts about appending to the store\<close>

lemma universal_newlines_append:
  "a = [] \<or> last a = LF \<Longrightarrow> universal_newlines (a @ b) = universal_newlines a @ universal_newlines b"
proof (induction a rule: universal_newlines.induct)
  case 1
  show ?case by simp
next
  case (2 c)
  then show ?case by (cases b) auto
next
  case (3 c d cs)
  then show ?case by (cases cs) (auto split: if_splits)
qed

lemma universal_newlines_last:
  "a \<noteq> [] \<Longrightarrow> last a = LF \<Longrightarrow> universal_newlines a \<noteq> [] \<and> last (universal_newlines a) = LF"
  by (induction a rule: universal_newlines.induct) (auto split: if_splits)

lemma readlines_append:
  "a = [] \<or> last a = LF \<Longrightarrow> readlines (a @ b) = readlines a @ readlines b"
proof (induction a)
  case Nil
  show ?case by simp
next
  case (Cons c cs)
  show ?case
  proof (cases "cs = []")
    case True
    with Cons.prems show ?thesis by simp
  next
    case False
    with Cons.prems have l: "last cs = LF" by simp
    then have IH: "readlines (cs @ b) = readlines cs @ readlines b" using Cons.IH by simp
    have "readlines cs \<noteq> []" using False by (cases cs) (auto split: list.splits)
    then show ?thesis using IH by (cases "readlines cs") auto
  qed
qed

lemma read_append:
  assumes "t = [] \<or> last t = LF"
  shows "read_database_lines (Some (t @ b)) = read_database_lines (Some t) @ read_database_lines (Some b)"
proof -
  have u: "universal_newlines (t @ b) = universal_newlines t @ universal_newlines b"
    using assms by (rule universal_newlines_append)
  have "universal_newlines t = [] \<or> last (universal_newlines t) = LF"
    using assms universal_newlines_last [of t] by (cases "t = []") auto
  then have "readlines (universal_newlines t @ universal_newlines b)
      = readlines (universal_newlines t) @ readlines (universal_newlines b)"
    by (rule readlines_append)
  with u show ?thesis by (simp add: read_database_lines_def)
qed

lemma read_one_line:
  assumes "LF \<notin> set l" "CR \<notin> set l" "strip l \<noteq> []"
  shows "read_database_lines (Some (l @ [LF])) = [strip l]"
proof -
  have "universal_newlines (l @ [LF]) = l @ [LF]" using assms by (intro universal_newlines_id) auto
  moreover have "readlines (l @ [LF]) = [l @ [LF]]" using assms readlines_line [of l "[]"] by simp
  ultimately show ?thesis using assms by (simp add: read_database_lines_def strip_line)
qed

lemma servers_loop_no_bar:
  "(c, s, n) \<in> set (servers_loop u ls) \<Longrightarrow> CHR ''|'' \<notin> set c \<and> CHR ''|'' \<notin> set s"
proof -
  assume "(c, s, n) \<in> set (servers_loop u ls)"
  then obtain l ts where "split CHR ''|'' l = [u, c, s, ts]" unfolding servers_loop_set by blast
  then have "c \<in> set (split CHR ''|'' l)" "s \<in> set (split CHR ''|'' l)" by simp_all
  then show ?thesis using split_pieces by blast
qed

lemma bar_count_line:
  "length (filter (\<lambda>c. c = CHR ''|'') (a @ ''|'' @ b @ ''|'' @ c @ ''|'' @ d))
     = 3 + length (filter (\<lambda>c. c = CHR ''|'') a) + length (filter (\<lambda>c. c = CHR ''|'') b)
       + length (filter (\<lambda>c. c = CHR ''|'') c) + length (filter (\<lambda>c. c = CHR ''|'') d)"
  by simp

lemma filter_bar_pos: "CHR ''|'' \<in> set s \<Longrightarrow> 0 < length (filter (\<lambda>c. c = CHR ''|'') s)"
  by (induction s) auto

lemma str_digits_set: "set (str_digits n) \<subseteq> set ''0123456789''"
proof (induction n rule: str_digits.induct)
  case (1 n)
  have d: "k < 10 \<Longrightarrow> digit_char k \<in> set ''0123456789''" for k
    unfolding digit_char_def by (rule nth_mem) simp
  show ?case
  proof (cases "n < 10")
    case True
    then have "nat n < 10" by simp
    then show ?thesis using d True by (subst str_digits.simps) simp
  next
    case False
    have "nat (n mod 10) < 10" by simp
    with d have "digit_char (nat (n mod 10)) \<in> set ''0123456789''" by blast
    with False 1 show ?thesis by (subst str_digits.simps) simp
  qed
qed

lemma str_int_set: "x \<in> set (str_int n) \<Longrightarrow> x \<in> set ''-0123456789''"
proof -
  assume "x \<in> set (str_int n)"
  then have "x = CHR ''-'' \<or> x \<in> set (str_digits n) \<or> x \<in> set (str_digits (- n))"
    by (cases "n < 0") (auto simp: str_int_def)
  then have "x = CHR ''-'' \<or> x \<in> set ''0123456789''"
    using str_digits_set by blast
  then show ?thesis by (simp only: list.set insert_iff)
qed

lemma str_int_clean:
  "LF \<notin> set (str_int n)" "CR \<notin> set (str_int n)" "CHR ''|'' \<notin> set (str_int n)"
proof -
  have "LF \<notin> set ''-0123456789''" "CR \<notin> set ''-0123456789''" "CHR ''|'' \<notin> set ''-0123456789''"
    by simp_all
  then show "LF \<notin> set (str_int n)" "CR \<notin> set (str_int n)" "CHR ''|'' \<notin> set (str_int n)"
    using str_int_set by blast+
qed

section \<open>Facts about the removal paths\<close>

lemma field1_no_bar: "CHR ''|'' \<notin> set l \<Longrightarrow> field1 l = Inl IndexError"
  by (simp add: field1_def split_no_sep)

lemma field1_bar: "CHR ''|'' \<in> set l \<Longrightarrow> field1 l = Inr (instance_id_of l)"
proof -
  assume "CHR ''|'' \<in> set l"
  then have "0 < length (filter (\<lambda>c. c = CHR ''|'') l)" by (rule filter_bar_pos)
  then have "2 \<le> length (split CHR ''|'' l)" by (simp only: length_split)
  then obtain p0 p1 ps where "split CHR ''|'' l = p0 # p1 # ps"
    by (cases "split CHR ''|'' l"; cases "tl (split CHR ''|'' l)") auto
  then show ?thesis by (simp add: field1_def instance_id_of_def)
qed

lemma field1_Inl: "field1 l = Inl e \<Longrightarrow> e = IndexError"
  by (auto simp: field1_def split: list.splits)

lemma remove_filter_Inl: "remove_filter cid ls = Inl e \<Longrightarrow> e = IndexError"
  by (induction ls arbitrary: e) (auto split: sum.splits dest: field1_Inl)

lemma remove_filter_error:
  "l \<in> set ls \<Longrightarrow> field1 l = Inl IndexError \<Longrightarrow> remove_filter cid ls = Inl IndexError"
proof (induction ls)
  case Nil
  then show ?case by simp
next
  case (Cons k ls)
  show ?case
  proof (cases "field1 k")
    case (Inl e)
    then show ?thesis using field1_Inl [of k e] by simp
  next
    case (Inr x)
    with Cons.prems have "l \<in> set ls" by auto
    with Cons have "remove_filter cid ls = Inl IndexError" by simp
    with Inr show ?thesis by simp
  qed
qed

lemma any_removed_Inl: "any_removed l items = Inl e \<Longrightarrow> e = IndexError"
  by (induction l items rule: any_removed.induct) (auto split: sum.splits if_splits dest: field1_Inl)

lemma any_removed_error:
  "items \<noteq> [] \<Longrightarrow> field1 l = Inl IndexError \<Longrightarrow> any_removed l items = Inl IndexError"
  by (cases items) auto

lemma any_removed_bar:
  "CHR ''|'' \<in> set l \<Longrightarrow>
     any_removed l items = Inr (instance_id_of l \<in> set (map (\<lambda>(u, c, s). c) items))"
  by (induction l items rule: any_removed.induct) (auto simp: field1_bar)

lemma remain_filter_Inl: "remain_filter items ls = Inl e \<Longrightarrow> e = IndexError"
  by (induction ls arbitrary: e) (auto split: sum.splits dest: any_removed_Inl)

lemma remain_filter_error:
  "items \<noteq> [] \<Longrightarrow> l \<in> set ls \<Longrightarrow> field1 l = Inl IndexError \<Longrightarrow>
     remain_filter items ls = Inl IndexError"
proof (induction ls)
  case Nil
  then show ?case by simp
next
  case (Cons k ls)
  show ?case
  proof (cases "any_removed k items")
    case (Inl e)
    then show ?thesis using any_removed_Inl [of k items e] by simp
  next
    case (Inr x)
    with Cons.prems have "l \<in> set ls" using any_removed_error [of items k] by auto
    with Cons have "remain_filter items ls = Inl IndexError" by simp
    with Inr show ?thesis by simp
  qed
qed

lemma remain_filter_bar:
  "\<forall>l\<in>set ls. CHR ''|'' \<in> set l \<Longrightarrow>
     remain_filter items ls
       = Inr (filter (\<lambda>l. instance_id_of l \<notin> set (map (\<lambda>(u, c, s). c) items)) ls)"
  by (induction ls) (auto simp: any_removed_bar)

lemma scan_loop_closed:
  "scan_loop now ls w =
     (w\<lparr>trace := trace w @ concat (map teardown (filter (expired now) ls))\<rparr>,
      map removed_item (filter (expired now) ls))"
proof (induction ls arbitrary: w)
  case Nil
  show ?case by simp
next
  case (Cons l ls)
  show ?case
  proof (cases "\<exists>a b c d. split CHR ''|'' l = [a, b, c, d]")
    case True
    then obtain a b c d where s: "split CHR ''|'' l = [a, b, c, d]" by blast
    show ?thesis
      by (simp add: s Cons expired_def removed_item_def teardown_def instance_id_of_def
          docker_def Let_def)
  next
    case False
    then have "scan_loop now (l # ls) w = scan_loop now ls w" "\<not> expired now l"
      by (auto simp: expired_def split: list.splits)
    then show ?thesis by (simp add: Cons)
  qed
qed

lemma servers_loop_filter_skip:
  "length (split CHR ''|'' l) \<noteq> 4 \<Longrightarrow>
     servers_loop u ls = servers_loop u (filter (\<lambda>k. k \<noteq> l) ls)"
proof (induction ls)
  case Nil
  show ?case by simp
next
  case (Cons k ls)
  show ?case
  proof (cases "k = l")
    case True
    have "servers_loop u (l # ls) = servers_loop u ls"
      using Cons.prems by (rule servers_loop_skip)
    with True Cons show ?thesis by simp
  next
    case False
    with Cons show ?thesis by (simp split: list.splits)
  qed
qed

section \<open>Round-trip persistence\<close>

lemma split_record_line:
  "well_formed_record (a, b, c, d) \<Longrightarrow> split CHR ''|'' (record_line (a, b, c, d)) = [a, b, c, d]"
  by (simp add: well_formed_record_def record_line_def split_append split_no_sep)

lemma stored_record_line: "well_formed_record r \<Longrightarrow> stored_line (record_line r)"
  by (cases r) (auto simp: well_formed_record_def stored_line_def record_line_def)

lemma servers_loop_records:
  "\<forall>r\<in>set rs. well_formed_record r \<Longrightarrow>
     servers_loop u (map record_line rs) = [(c, s, int_or_zero t). (ow, c, s, t) \<leftarrow> rs, ow = u]"
proof (induction rs)
  case Nil
  show ?case by simp
next
  case (Cons r rs)
  obtain a b c d where r: "r = (a, b, c, d)" by (cases r) auto
  with Cons.prems have "split CHR ''|'' (record_line r) = [a, b, c, d]"
    by (simp add: split_record_line)
  with Cons r show ?case by simp
qed

text \<open>
  Claim C3 (round-trip persistence). Writing any list of well-formed records with
  \<open>write_database_lines\<close> and reading the file again gives the same records, field by
  field and in the same order, and \<open>get_user_servers\<close> returns those of the owner asked
  for. In any store, a line whose number of fields is not four is skipped by
  \<open>get_user_servers\<close>: the result is the one for the store without that line.
\<close>

theorem round_trip_persistence:
  "((\<forall>r\<in>set rs. well_formed_record r) \<longrightarrow>
      map (split CHR ''|'') (read_database_lines (write_database_lines (map record_line rs)))
        = map (\<lambda>(ow, c, s, t). [ow, c, s, t]) rs
      \<and> get_user_servers (write_database_lines (map record_line rs)) u
        = [(c, s, int_or_zero t). (ow, c, s, t) \<leftarrow> rs, ow = u])
   \<and> (read_database_lines f = pre @ bad # post \<and> length (split CHR ''|'' bad) \<noteq> 4 \<longrightarrow>
        get_user_servers f u = get_user_servers (write_database_lines (pre @ post)) u)"
proof (intro conjI impI)
  assume wf: "\<forall>r\<in>set rs. well_formed_record r"
  then have "\<forall>l\<in>set (map record_line rs). stored_line l" by (auto simp: stored_record_line)
  then have rw: "read_database_lines (write_database_lines (map record_line rs)) = map record_line rs"
    by (rule read_write)
  have "map (split CHR ''|'') (map record_line rs) = map (\<lambda>(ow, c, s, t). [ow, c, s, t]) rs"
    using wf by (auto simp: split_record_line)
  with rw show "map (split CHR ''|'') (read_database_lines (write_database_lines (map record_line rs)))
        = map (\<lambda>(ow, c, s, t). [ow, c, s, t]) rs" by simp
  show "get_user_servers (write_database_lines (map record_line rs)) u
        = [(c, s, int_or_zero t). (ow, c, s, t) \<leftarrow> rs, ow = u]"
    using wf by (simp add: get_user_servers_def rw servers_loop_records)
next
  assume a: "read_database_lines f = pre @ bad # post \<and> length (split CHR ''|'' bad) \<noteq> 4"
  then have "\<forall>l\<in>set (pre @ post). stored_line l"
    using read_stored [of _ f] by auto
  then have "read_database_lines (write_database_lines (pre @ post)) = pre @ post"
    by (rule read_write)
  moreover have "servers_loop u (bad # post) = servers_loop u post"
    by (rule servers_loop_skip) (use a in simp)
  then have "servers_loop u (pre @ bad # post) = servers_loop u (pre @ post)"
    by (simp only: servers_loop_append)
  ultimately show "get_user_servers f u = get_user_servers (write_database_lines (pre @ post)) u"
    using a by (simp add: get_user_servers_def)
qed

lemma mixed_store_lines:
  "read_database_lines mixed_store = [''alice|c1|ssh a1@host|1700000000''] @ ''alice|broken|line''
     # [''alice|c3|ssh a3@host | plan=basic|1700000002'', ''alice|c4|ssh a4@host|1700000003'']"
  by code_simp

lemma mixed_store_bad: "length (split CHR ''|'' ''alice|broken|line'') \<noteq> 4"
  by code_simp

lemma two_records_wf:
  "well_formed_record (''alice'', ''c1'', ''ssh a1@host'', ''1700000000'')"
  "well_formed_record (''bob'', ''c2'', ''ssh b2@host'', ''1700000001'')"
  by code_simp+

theorem round_trip_persistence_witness:
  "map (split CHR ''|'') (read_database_lines (write_database_lines (map record_line
       [(''alice'', ''c1'', ''ssh a1@host'', ''1700000000''), (''bob'', ''c2'', ''ssh b2@host'', ''1700000001'')])))
     = [[''alice'', ''c1'', ''ssh a1@host'', ''1700000000''], [''bob'', ''c2'', ''ssh b2@host'', ''1700000001'']]
   \<and> get_user_servers (write_database_lines (map record_line
       [(''alice'', ''c1'', ''ssh a1@host'', ''1700000000''), (''bob'', ''c2'', ''ssh b2@host'', ''1700000001'')])) ''bob''
     = [(''c2'', ''ssh b2@host'', int_or_zero ''1700000001'')]
   \<and> get_user_servers mixed_store ''alice''
     = get_user_servers (write_database_lines ([''alice|c1|ssh a1@host|1700000000'']
         @ [''alice|c3|ssh a3@host | plan=basic|1700000002'', ''alice|c4|ssh a4@host|1700000003''])) ''alice''"
  using round_trip_persistence [of
      "[(''alice'', ''c1'', ''ssh a1@host'', ''1700000000''), (''bob'', ''c2'', ''ssh b2@host'', ''1700000001'')]"
      "''bob''" mixed_store "[''alice|c1|ssh a1@host|1700000000'']" "''alice|broken|line''"
      "[''alice|c3|ssh a3@host | plan=basic|1700000002'', ''alice|c4|ssh a4@host|1700000003'']"]
    round_trip_persistence [of "[]" "''alice''" mixed_store
      "[''alice|c1|ssh a1@host|1700000000'']" "''alice|broken|line''"
      "[''alice|c3|ssh a3@host | plan=basic|1700000002'', ''alice|c4|ssh a4@host|1700000003'']"]
    two_records_wf mixed_store_lines mixed_store_bad
  by simp

section \<open>Provision atomicity\<close>

lemma capture_twice_None:
  "fst (capture_ssh_session_line_from_process proc 25) = None \<Longrightarrow>
   fst (capture_ssh_session_line_from_process (snd (capture_ssh_session_line_from_process proc 25)) 10) = None \<Longrightarrow>
   capture_twice proc = None"
  by (cases "capture_ssh_session_line_from_process proc 25") (simp add: capture_twice_def)

text \<open>
  Claim C2 (provision atomicity). In every deploy that creates the container and starts
  the helper, and in which the capture with timeout 25 and the retry with timeout 10 both
  return no line, the store is left as it was, and the commands are exactly: the message
  that the instance is being created, \<open>docker run\<close>, \<open>docker exec\<close>, \<open>docker rm -f\<close> of the
  created instance, and the failure message. The store is never opened for writing.
\<close>

theorem provision_atomicity:
  assumes "plan_to_memory_str plan_name = Some mem_str"
    and "fst (user_has_required_role_for_plan itx plan_name)"
    and "count_user_servers (db w) (user_str itx) < SERVER_LIMIT_PER_USER"
    and "run_result env = Completed out"
    and "exec_error env = None"
    and "fst (capture_ssh_session_line_from_process (process env) 25) = None"
    and "fst (capture_ssh_session_line_from_process
               (snd (capture_ssh_session_line_from_process (process env) 25)) 10) = None"
  shows "db (create_instance_task env itx image_name os_label plan_name w) = db w
    \<and> trace (create_instance_task env itx image_name os_label plan_name w)
        = trace w @
          [Send Ephemeral (Creating os_label plan_name mem_str),
           Docker [''docker'', ''run'', ''-d'', ''--memory'', mem_str, ''--privileged'',
                   ''--cap-add=ALL'', image_name, ''/sbin/init''],
           Docker [''docker'', ''exec'', strip out, ''tmate'', ''-F''],
           Docker [''docker'', ''rm'', ''-f'', strip out],
           Send Ephemeral CaptureFailed]"
proof -
  have c: "capture_twice (process env) = None"
    using assms(6,7) by (rule capture_twice_None)
  have q: "\<not> SERVER_LIMIT_PER_USER \<le> count_user_servers (db w) (user_str itx)"
    using assms(3) by simp
  show ?thesis
    using assms(1,2,4,5) q
    by (simp add: create_instance_task_def deploy_run_def deploy_container_def deploy_result_def
        c send_def docker_def Let_def)
qed

lemma strip_Welcome: "strip (''Welcome'' @ [LF]) = ''Welcome''"
  by code_simp

lemma not_session_Welcome: "\<not> is_session_line ''Welcome''"
  by code_simp

lemma timeout_env_capture:
  "capture_ssh_session_line_from_process (process timeout_env) 25 = (None, [])"
  by (simp add: capture_ssh_session_line_from_process_def timeout_env_def strip_Welcome
      not_session_Welcome del: append.simps)

lemma timeout_env_facts:
  "plan_to_memory_str ''basic'' = Some ''1g''"
  "fst (user_has_required_role_for_plan alice ''basic'')"
  "count_user_servers (db fresh_world) (user_str alice) < SERVER_LIMIT_PER_USER"
  "run_result timeout_env = Completed (''c1'' @ [LF])"
  "exec_error timeout_env = None"
  "fst (capture_ssh_session_line_from_process (process timeout_env) 25) = None"
  "fst (capture_ssh_session_line_from_process
               (snd (capture_ssh_session_line_from_process (process timeout_env) 25)) 10) = None"
proof -
  show "plan_to_memory_str ''basic'' = Some ''1g''" by code_simp
  show "fst (user_has_required_role_for_plan alice ''basic'')" by code_simp
  show "count_user_servers (db fresh_world) (user_str alice) < SERVER_LIMIT_PER_USER" by code_simp
  show "run_result timeout_env = Completed (''c1'' @ [LF])" by (simp add: timeout_env_def)
  show "exec_error timeout_env = None" by (simp add: timeout_env_def)
  show "fst (capture_ssh_session_line_from_process (process timeout_env) 25) = None"
    by (simp only: timeout_env_capture fst_conv)
  show "fst (capture_ssh_session_line_from_process
               (snd (capture_ssh_session_line_from_process (process timeout_env) 25)) 10) = None"
    by (simp only: timeout_env_capture snd_conv)
      (simp add: capture_ssh_session_line_from_process_def)
qed

theorem provision_atomicity_witness:
  "db (create_instance_task timeout_env alice ''ubuntu-tmate:22.04'' ''Ubuntu 22.04'' ''basic'' fresh_world)
     = db fresh_world
    \<and> trace (create_instance_task timeout_env alice ''ubuntu-tmate:22.04'' ''Ubuntu 22.04'' ''basic'' fresh_world)
        = trace fresh_world @
          [Send Ephemeral (Creating ''Ubuntu 22.04'' ''basic'' ''1g''),
           Docker [''docker'', ''run'', ''-d'', ''--memory'', ''1g'', ''--privileged'',
                   ''--cap-add=ALL'', ''ubuntu-tmate:22.04'', ''/sbin/init''],
           Docker [''docker'', ''exec'', strip (''c1'' @ [LF]), ''tmate'', ''-F''],
           Docker [''docker'', ''rm'', ''-f'', strip (''c1'' @ [LF])],
           Send Ephemeral CaptureFailed]"
  by (rule provision_atomicity [OF timeout_env_facts(1-7)])

section \<open>The field separator inside a connection string\<close>

lemma line_field_count:
  "length (split CHR ''|'' (strip (a @ ''|'' @ b @ ''|'' @ c @ ''|'' @ d)))
     = 4 + length (filter (\<lambda>x. x = CHR ''|'') a) + length (filter (\<lambda>x. x = CHR ''|'') b)
       + length (filter (\<lambda>x. x = CHR ''|'') c) + length (filter (\<lambda>x. x = CHR ''|'') d)"
  by (simp only: length_split filter_strip [OF not_isspace_bar] bar_count_line)

lemma strip_line_nonempty: "strip (a @ ''|'' @ b) \<noteq> []"
proof
  assume "strip (a @ ''|'' @ b) = []"
  then have "filter (\<lambda>x. x = CHR ''|'') (strip (a @ ''|'' @ b)) = []" by simp
  then show False by (simp only: filter_strip [OF not_isspace_bar]) simp
qed

lemma add_to_database_read:
  assumes "f = None \<or> f = Some [] \<or> (\<exists>t. f = Some (t @ [LF]))"
    and "LF \<notin> set user" "CR \<notin> set user" "LF \<notin> set cid" "CR \<notin> set cid"
    and "LF \<notin> set ssh" "CR \<notin> set ssh"
  shows "read_database_lines (add_to_database ts f user cid ssh)
     = read_database_lines f @ [strip (user @ ''|'' @ cid @ ''|'' @ ssh @ ''|'' @ str_int ts)]"
proof -
  let ?l = "user @ ''|'' @ cid @ ''|'' @ ssh @ ''|'' @ str_int ts"
  define t where "t = (case f of None \<Rightarrow> [] | Some x \<Rightarrow> x)"
  have t: "t = [] \<or> last t = LF" using assms(1) by (auto simp: t_def)
  have f: "read_database_lines f = read_database_lines (Some t)"
    by (cases f) (simp_all add: t_def read_database_lines_def)
  have a: "add_to_database ts f user cid ssh = Some (t @ ?l @ [LF])"
    by (simp add: add_to_database_def t_def)
  have c: "LF \<notin> set ?l" "CR \<notin> set ?l" using assms str_int_clean [of ts] by auto
  have "strip ?l \<noteq> []" by (rule strip_line_nonempty)
  with c have "read_database_lines (Some (?l @ [LF])) = [strip ?l]" by (intro read_one_line)
  with t show ?thesis unfolding a f by (simp only: read_append)
qed

text \<open>
  Claim C4 (pipe corruption). When the connection string of an appended record contains
  \<open>|\<close>, \<open>add_to_database\<close> puts the line at the end of the store, the line has more than
  four fields, and no read of any owner's records returns a record with that connection
  string. If the store ended with a line break before (or was empty or absent) and the
  fields hold no line break, the store then reads as its old lines followed by the new
  line, that line as read has more than four fields, and every owner's records read as
  before the append: the record is stored and cannot be read.
\<close>

theorem pipe_corruption:
  "CHR ''|'' \<in> set ssh \<longrightarrow>
     add_to_database ts f user cid ssh
       = Some ((case f of None \<Rightarrow> [] | Some text \<Rightarrow> text)
               @ (user @ ''|'' @ cid @ ''|'' @ ssh @ ''|'' @ str_int ts) @ [LF])
     \<and> length (split CHR ''|'' (user @ ''|'' @ cid @ ''|'' @ ssh @ ''|'' @ str_int ts)) > 4
     \<and> (\<forall>u n. (cid, ssh, n) \<notin> set (get_user_servers (add_to_database ts f user cid ssh) u))
     \<and> ((f = None \<or> f = Some [] \<or> (\<exists>t. f = Some (t @ [LF])))
          \<and> list_all (\<lambda>x. LF \<notin> set x \<and> CR \<notin> set x) [user, cid, ssh]
         \<longrightarrow> read_database_lines (add_to_database ts f user cid ssh)
               = read_database_lines f
                 @ [strip (user @ ''|'' @ cid @ ''|'' @ ssh @ ''|'' @ str_int ts)]
             \<and> length (split CHR ''|''
                  (strip (user @ ''|'' @ cid @ ''|'' @ ssh @ ''|'' @ str_int ts))) > 4
             \<and> (\<forall>u. get_user_servers (add_to_database ts f user cid ssh) u = get_user_servers f u))"
proof (intro impI conjI allI)
  assume bar: "CHR ''|'' \<in> set ssh"
  let ?l = "user @ ''|'' @ cid @ ''|'' @ ssh @ ''|'' @ str_int ts"
  have pos: "0 < length (filter (\<lambda>x. x = CHR ''|'') ssh)" using bar by (rule filter_bar_pos)
  show "add_to_database ts f user cid ssh
       = Some ((case f of None \<Rightarrow> [] | Some text \<Rightarrow> text) @ ?l @ [LF])"
    by (simp add: add_to_database_def)
  show "length (split CHR ''|'' ?l) > 4"
    using pos by (simp only: length_split bar_count_line)
  show "(cid, ssh, n) \<notin> set (get_user_servers (add_to_database ts f user cid ssh) u)" for u n
    using bar servers_loop_no_bar [of cid ssh n u] unfolding get_user_servers_def by blast
  have many: "length (split CHR ''|'' (strip ?l)) > 4"
    using pos by (simp only: line_field_count)
  assume h: "(f = None \<or> f = Some [] \<or> (\<exists>t. f = Some (t @ [LF])))
          \<and> list_all (\<lambda>x. LF \<notin> set x \<and> CR \<notin> set x) [user, cid, ssh]"
  show r: "read_database_lines (add_to_database ts f user cid ssh) = read_database_lines f @ [strip ?l]"
    using h by (intro add_to_database_read) auto
  show "length (split CHR ''|'' (strip ?l)) > 4" by (rule many)
  show "get_user_servers (add_to_database ts f user cid ssh) u = get_user_servers f u" for u
  proof -
    have "length (split CHR ''|'' (strip ?l)) \<noteq> 4" using many by simp
    then have "servers_loop u [strip ?l] = servers_loop u []" by (rule servers_loop_skip)
    then have "servers_loop u [strip ?l] = []" by simp
    then show ?thesis by (simp only: get_user_servers_def r servers_loop_append) simp
  qed
qed

theorem pipe_corruption_witness:
  "add_to_database 1700000000 None ''alice'' ''c1'' ''ssh a1@host | plan=basic''
     = Some ((case None of None \<Rightarrow> [] | Some text \<Rightarrow> text)
             @ (''alice'' @ ''|'' @ ''c1'' @ ''|'' @ ''ssh a1@host | plan=basic'' @ ''|''
                @ str_int 1700000000) @ [LF])
   \<and> length (split CHR ''|'' (''alice'' @ ''|'' @ ''c1'' @ ''|'' @ ''ssh a1@host | plan=basic'' @ ''|'' @ str_int 1700000000)) > 4
   \<and> (\<forall>u n. (''c1'', ''ssh a1@host | plan=basic'', n)
         \<notin> set (get_user_servers (add_to_database 1700000000 None ''alice'' ''c1'' ''ssh a1@host | plan=basic'') u))
   \<and> read_database_lines (add_to_database 1700000000 None ''alice'' ''c1'' ''ssh a1@host | plan=basic'')
       = read_database_lines None
         @ [strip (''alice'' @ ''|'' @ ''c1'' @ ''|'' @ ''ssh a1@host | plan=basic'' @ ''|''
                   @ str_int 1700000000)]
   \<and> (\<forall>u. get_user_servers (add_to_database 1700000000 None ''alice'' ''c1'' ''ssh a1@host | plan=basic'') u
         = get_user_servers None u)"
proof -
  let ?ssh = "''ssh a1@host | plan=basic''"
  have b: "CHR ''|'' \<in> set ?ssh" by simp
  have h: "(None = None \<or> None = Some [] \<or> (\<exists>t. None = Some (t @ [LF])))
      \<and> list_all (\<lambda>x. LF \<notin> set x \<and> CR \<notin> set x) [''alice'', ''c1'', ?ssh]"
    by simp
  note x = pipe_corruption [of ?ssh 1700000000 None "''alice''" "''c1''", THEN mp, OF b]
  note p0 = x [THEN conjunct1]
  note p1 = x [THEN conjunct2, THEN conjunct1]
  note p2 = x [THEN conjunct2, THEN conjunct2, THEN conjunct1]
  note y = x [THEN conjunct2, THEN conjunct2, THEN conjunct2, THEN mp, OF h]
  note p3 = y [THEN conjunct1]
  note p4 = y [THEN conjunct2, THEN conjunct2]
  from p0 p1 p2 p3 p4 show ?thesis by (intro conjI)
qed

text \<open>
  Claim C1 (deploy scenario), evaluated on the code. The deploy of \<open>alice\<close> with plan
  \<open>basic\<close> writes a line whose connection string carries the annotation \<open>| plan=basic\<close>.
  The annotation holds the field separator, the line has five fields, and
  \<open>get_user_servers\<close> returns no record for \<open>alice\<close>.
\<close>

theorem deploy_scenario_not_listed:
  "db (create_instance_task alice_env alice ''ubuntu-tmate:22.04'' ''Ubuntu 22.04'' ''basic'' fresh_world)
     = Some (''alice|c1|ssh session: alice@host -p 2222 | plan=basic|1700000000'' @ [LF])
   \<and> map (split CHR ''|'') (read_database_lines
        (db (create_instance_task alice_env alice ''ubuntu-tmate:22.04'' ''Ubuntu 22.04'' ''basic'' fresh_world)))
     = [[''alice'', ''c1'', ''ssh session: alice@host -p 2222 '', '' plan=basic'', ''1700000000'']]
   \<and> get_user_servers
        (db (create_instance_task alice_env alice ''ubuntu-tmate:22.04'' ''Ubuntu 22.04'' ''basic'' fresh_world))
        ''alice'' = []
   \<and> count_user_servers
        (db (create_instance_task alice_env alice ''ubuntu-tmate:22.04'' ''Ubuntu 22.04'' ''basic'' fresh_world))
        ''alice'' = 0"
proof -
  have d: "db (create_instance_task alice_env alice ''ubuntu-tmate:22.04'' ''Ubuntu 22.04'' ''basic'' fresh_world)
     = Some (''alice|c1|ssh session: alice@host -p 2222 | plan=basic|1700000000'' @ [LF])"
    by code_simp
  have r: "read_database_lines (Some (''alice|c1|ssh session: alice@host -p 2222 | plan=basic|1700000000'' @ [LF]))
     = [''alice|c1|ssh session: alice@host -p 2222 | plan=basic|1700000000'']"
    by code_simp
  have s: "split CHR ''|'' ''alice|c1|ssh session: alice@host -p 2222 | plan=basic|1700000000''
     = [''alice'', ''c1'', ''ssh session: alice@host -p 2222 '', '' plan=basic'', ''1700000000'']"
    by code_simp
  show ?thesis
    unfolding d get_user_servers_def count_user_servers_def r by (simp add: s)
qed

section \<open>The capture loop\<close>

lemma capture_loop_skip:
  "\<forall>e\<in>set pre. \<not> accepted e \<Longrightarrow> now + sum_list (map event_time pre) < deadline \<Longrightarrow>
     capture_loop deadline now (pre @ Got d line # post)
       = capture_loop deadline (now + sum_list (map event_time pre)) (Got d line # post)"
proof (induction pre arbitrary: now)
  case Nil
  show ?case by simp
next
  case (Cons e pre)
  have t: "now < deadline" using Cons.prems(2) by simp
  have r: "\<forall>e\<in>set pre. \<not> accepted e" using Cons.prems(1) by simp
  have b: "(now + event_time e) + sum_list (map event_time pre) < deadline"
    using Cons.prems(2) by simp
  have step: "capture_loop deadline now (e # pre @ Got d line # post)
      = capture_loop deadline (now + event_time e) (pre @ Got d line # post)"
  proof (cases e)
    case TimedOut
    with t show ?thesis by simp
  next
    case (Got d' line')
    with Cons.prems(1) have "\<not> (strip line' \<noteq> [] \<and> is_session_line (strip line'))" by simp
    with t Got show ?thesis by (auto simp: Let_def add.assoc)
  qed
  have "capture_loop deadline (now + event_time e) (pre @ Got d line # post)
      = capture_loop deadline ((now + event_time e) + sum_list (map event_time pre)) (Got d line # post)"
    using r b by (rule Cons.IH)
  with step show ?case by (simp add: add.assoc)
qed

text \<open>
  Claim C8 (connection-descriptor predicate). Take a line that the loop reads before its
  deadline, after events none of which it accepts. Stripped and not empty, the line is
  accepted exactly when its lower-cased text contains \<open>ssh session\<close>, or its lower-cased
  text contains \<open>ssh\<close> and the line itself contains \<open>@\<close> or \<open>-p\<close>, or its lower-cased text
  contains \<open>forwarding\<close> or \<open>http\<close>. The capture then returns the stripped line and leaves
  all later output unread; otherwise it goes on with the next event.
\<close>

theorem capture_first_match:
  "(\<forall>e\<in>set pre. \<not> accepted e) \<and> sum_list (map event_time pre) < 1000 * timeout \<longrightarrow>
     capture_ssh_session_line_from_process (pre @ Got d line # post) timeout =
       (if strip line \<noteq> [] \<and>
           (contains ''ssh session'' (lower (strip line))
            \<or> (contains ''ssh'' (lower (strip line))
                \<and> (contains ''@'' (strip line) \<or> contains ''-p'' (strip line)))
            \<or> contains ''forwarding'' (lower (strip line))
            \<or> contains ''http'' (lower (strip line)))
        then (Some (strip line), post)
        else capture_loop (1000 * timeout) (sum_list (map event_time (pre @ [Got d line]))) post)"
proof
  assume a: "(\<forall>e\<in>set pre. \<not> accepted e) \<and> sum_list (map event_time pre) < 1000 * timeout"
  then have "0 + sum_list (map event_time pre) < 1000 * timeout" by simp
  with a have "capture_loop (1000 * timeout) 0 (pre @ Got d line # post)
      = capture_loop (1000 * timeout) (0 + sum_list (map event_time pre)) (Got d line # post)"
    by (intro capture_loop_skip) simp_all
  moreover have "strip line \<noteq> [] \<Longrightarrow> line \<noteq> []" by auto
  ultimately show "capture_ssh_session_line_from_process (pre @ Got d line # post) timeout =
       (if strip line \<noteq> [] \<and>
           (contains ''ssh session'' (lower (strip line))
            \<or> (contains ''ssh'' (lower (strip line))
                \<and> (contains ''@'' (strip line) \<or> contains ''-p'' (strip line)))
            \<or> contains ''forwarding'' (lower (strip line))
            \<or> contains ''http'' (lower (strip line)))
        then (Some (strip line), post)
        else capture_loop (1000 * timeout) (sum_list (map event_time (pre @ [Got d line]))) post)"
    using a by (auto simp: capture_ssh_session_line_from_process_def is_session_line_def Let_def add.assoc)
qed


lemma capture_witness_facts:
  "strip (''  ssh session: alice@host -p 2222'' @ [LF]) = ''ssh session: alice@host -p 2222''"
  "contains ''ssh session'' (lower ''ssh session: alice@host -p 2222'')"
  "strip (''SSH -P 2222'' @ [LF]) = ''SSH -P 2222''"
  "\<not> contains ''ssh session'' (lower ''SSH -P 2222'')"
  "\<not> contains ''@'' ''SSH -P 2222''"
  "\<not> contains ''-p'' ''SSH -P 2222''"
  "\<not> contains ''forwarding'' (lower ''SSH -P 2222'')"
  "\<not> contains ''http'' (lower ''SSH -P 2222'')"
  by code_simp+

theorem capture_first_match_witness:
  "capture_ssh_session_line_from_process
      ([TimedOut, Got 5 (''Welcome'' @ [LF])] @ Got 7 (''  ssh session: alice@host -p 2222'' @ [LF])
        # [Got 1 (''http://later'' @ [LF])]) 25
     = (Some ''ssh session: alice@host -p 2222'', [Got 1 (''http://later'' @ [LF])])
   \<and> capture_ssh_session_line_from_process ([] @ Got 7 (''SSH -P 2222'' @ [LF]) # []) 25 = (None, [])"
proof -
  have p: "(\<forall>e\<in>set [TimedOut, Got 5 (''Welcome'' @ [LF])]. \<not> accepted e)
      \<and> sum_list (map event_time [TimedOut, Got 5 (''Welcome'' @ [LF])]) < 1000 * 25"
    by (simp add: strip_Welcome not_session_Welcome del: append.simps)
  have q: "(\<forall>e\<in>set []. \<not> accepted e) \<and> sum_list (map event_time []) < 1000 * 25"
    by simp
  note a = capture_first_match [of "[TimedOut, Got 5 (''Welcome'' @ [LF])]" 25 7
      "''  ssh session: alice@host -p 2222'' @ [LF]" "[Got 1 (''http://later'' @ [LF])]", THEN mp, OF p]
  note b = capture_first_match [of "[]" 25 7 "''SSH -P 2222'' @ [LF]" "[]", THEN mp, OF q]
  have "capture_ssh_session_line_from_process
      ([TimedOut, Got 5 (''Welcome'' @ [LF])] @ Got 7 (''  ssh session: alice@host -p 2222'' @ [LF])
        # [Got 1 (''http://later'' @ [LF])]) 25
     = (Some ''ssh session: alice@host -p 2222'', [Got 1 (''http://later'' @ [LF])])"
    by (simp only: a capture_witness_facts) simp
  moreover have "capture_ssh_session_line_from_process ([] @ Got 7 (''SSH -P 2222'' @ [LF]) # []) 25 = (None, [])"
    by (simp only: b capture_witness_facts) simp
  ultimately show ?thesis by (rule conjI)
qed

section \<open>The capability gate\<close>

lemma role_loop_iff: "role_loop q rs \<longleftrightarrow> (\<exists>r\<in>set rs. lower r = lower q)"
  by (induction rs) auto

lemma lower_Basic: "lower ''Basic'' = ''basic''"
  by (simp add: lower_def lower_char_def isupper_def)

lemma lower_Premium: "lower ''Premium'' = ''premium''"
  by (simp add: lower_def lower_char_def isupper_def)

lemma lower_premium: "lower ''premium'' = ''premium''"
  by (simp add: lower_def lower_char_def isupper_def)

lemma plan_key_prembasic: "plan_key ''prembasic'' = ''prembasic''"
  by (simp add: plan_key_def lower_def lower_char_def isupper_def)

lemma required_prembasic: "required_role_of ''prembasic'' = Some ''Premium''"
  by (simp add: required_role_of_def plan_key_prembasic PLAN_ROLE_REQUIREMENTS_def)

lemma gate_iff:
  "fst (user_has_required_role_for_plan itx p) \<longleftrightarrow>
     (required_role_of p = None \<or>
      (\<exists>q. required_role_of p = Some q \<and> (\<exists>r\<in>set (member_role_names itx). lower r = lower q)))"
  by (auto simp: user_has_required_role_for_plan_def member_role_names_def role_loop_iff
           split: option.splits)

lemma gate_denied:
  "\<not> fst (user_has_required_role_for_plan itx p) \<Longrightarrow>
     required_role_of p \<noteq> None \<and> snd (user_has_required_role_for_plan itx p) = required_role_of p"
  by (auto simp: user_has_required_role_for_plan_def split: option.splits if_splits)

lemma deploy_denied:
  "plan_to_memory_str p \<noteq> None \<Longrightarrow> \<not> fst (user_has_required_role_for_plan itx p) \<Longrightarrow>
     create_instance_task env itx img os_label p w
       = send Ephemeral (PermissionDenied p (required_role_of p)) w"
  using gate_denied [of itx p] by (auto simp: create_instance_task_def Let_def)

text \<open>
  Claim C6 (capability gate). For every plan name and every user, access is granted if and
  only if the plan requires no role or one of the user's role names equals the required one
  up to letter case. On denial the required role is returned, and the deploy command
  reports it in its \<open>PermissionDenied\<close> message. A plan that requires \<open>Premium\<close> denies a
  user whose roles are \<open>Basic\<close>, and admits a user with \<open>Basic\<close> and \<open>Premium\<close> and a user
  with \<open>premium\<close>.
\<close>

theorem capability_gate:
  "(fst (user_has_required_role_for_plan itx p) \<longleftrightarrow>
      (required_role_of p = None \<or>
       (\<exists>q. required_role_of p = Some q \<and> (\<exists>r\<in>set (member_role_names itx). lower r = lower q))))
   \<and> (\<not> fst (user_has_required_role_for_plan itx p) \<longrightarrow>
        required_role_of p \<noteq> None
        \<and> snd (user_has_required_role_for_plan itx p) = required_role_of p
        \<and> (plan_to_memory_str p \<noteq> None \<longrightarrow>
             create_instance_task env itx img os_label p w
               = send Ephemeral (PermissionDenied p (required_role_of p)) w))
   \<and> (required_role_of p = Some ''Premium'' \<longrightarrow>
        \<not> fst (user_has_required_role_for_plan \<lparr>user_str = u, member_roles = Some [''Basic'']\<rparr> p)
        \<and> fst (user_has_required_role_for_plan
                 \<lparr>user_str = u, member_roles = Some [''Basic'', ''Premium'']\<rparr> p)
        \<and> fst (user_has_required_role_for_plan \<lparr>user_str = u, member_roles = Some [''premium'']\<rparr> p))"
proof (intro conjI impI)
  show "fst (user_has_required_role_for_plan itx p) \<longleftrightarrow>
      (required_role_of p = None \<or>
       (\<exists>q. required_role_of p = Some q \<and> (\<exists>r\<in>set (member_role_names itx). lower r = lower q)))"
    by (rule gate_iff)
next
  assume "\<not> fst (user_has_required_role_for_plan itx p)"
  then show "required_role_of p \<noteq> None"
    and "snd (user_has_required_role_for_plan itx p) = required_role_of p"
    using gate_denied by blast+
next
  assume "\<not> fst (user_has_required_role_for_plan itx p)" "plan_to_memory_str p \<noteq> None"
  then show "create_instance_task env itx img os_label p w
               = send Ephemeral (PermissionDenied p (required_role_of p)) w"
    by (simp add: deploy_denied)
next
  assume r: "required_role_of p = Some ''Premium''"
  show "\<not> fst (user_has_required_role_for_plan \<lparr>user_str = u, member_roles = Some [''Basic'']\<rparr> p)"
    using r by (simp add: gate_iff member_role_names_def lower_Basic lower_Premium)
  show "fst (user_has_required_role_for_plan
                 \<lparr>user_str = u, member_roles = Some [''Basic'', ''Premium'']\<rparr> p)"
    using r by (simp add: gate_iff member_role_names_def)
  show "fst (user_has_required_role_for_plan \<lparr>user_str = u, member_roles = Some [''premium'']\<rparr> p)"
    using r by (simp add: gate_iff member_role_names_def lower_Premium lower_premium)
qed

theorem capability_gate_witness:
  "required_role_of ''prembasic'' = Some ''Premium''
   \<and> plan_to_memory_str ''prembasic'' \<noteq> None
   \<and> \<not> fst (user_has_required_role_for_plan
              \<lparr>user_str = ''bob'', member_roles = Some [''Basic'']\<rparr> ''prembasic'')
   \<and> create_instance_task alice_env \<lparr>user_str = ''bob'', member_roles = Some [''Basic'']\<rparr>
        ''ubuntu-tmate:22.04'' ''Ubuntu 22.04'' ''prembasic'' fresh_world
        = send Ephemeral (PermissionDenied ''prembasic'' (Some ''Premium'')) fresh_world
   \<and> fst (user_has_required_role_for_plan
            \<lparr>user_str = ''bob'', member_roles = Some [''premium'']\<rparr> ''prembasic'')"
proof -
  have m: "plan_to_memory_str ''prembasic'' \<noteq> None"
    by (simp add: plan_to_memory_str_def plan_key_prembasic PLANS_def)
  show ?thesis
    using capability_gate [of "\<lparr>user_str = ''bob'', member_roles = Some [''Basic'']\<rparr>"
        "''prembasic''" alice_env "''ubuntu-tmate:22.04''" "''Ubuntu 22.04''" fresh_world "''bob''"]
      m required_prembasic
    by auto
qed

section \<open>Identifier resolution\<close>

text \<open>
  Claim C7 (identifier resolution). If the resolution returns an instance id, then the store
  holds a four-field record of that owner with that instance id, and the identifier is the
  instance id or a substring of the record's connection string. It returns nothing exactly
  when no four-field record of that owner matches, whatever the records of other owners are.
\<close>

theorem identifier_resolution:
  "(find_container_for_user_by_name f owner ident = Some cid \<longrightarrow>
      (\<exists>l\<in>set (read_database_lines f). \<exists>ssh ts.
          split CHR ''|'' l = [owner, cid, ssh, ts] \<and> (ident = cid \<or> (\<exists>p q. ssh = p @ ident @ q))))
   \<and> (find_container_for_user_by_name f owner ident = None \<longleftrightarrow>
        \<not> (\<exists>l\<in>set (read_database_lines f). \<exists>c ssh ts.
              split CHR ''|'' l = [owner, c, ssh, ts] \<and> (ident = c \<or> (\<exists>p q. ssh = p @ ident @ q))))"
proof (intro conjI impI)
  assume "find_container_for_user_by_name f owner ident = Some cid"
  then obtain ssh n where "(cid, ssh, n) \<in> set (get_user_servers f owner)"
    and m: "ident = cid \<or> contains ident ssh"
    unfolding find_container_for_user_by_name_def by (blast dest: find_loop_Some)
  then obtain l ts where "l \<in> set (read_database_lines f)" "split CHR ''|'' l = [owner, cid, ssh, ts]"
    unfolding get_user_servers_def servers_loop_set by blast
  with m show "\<exists>l\<in>set (read_database_lines f). \<exists>ssh ts.
          split CHR ''|'' l = [owner, cid, ssh, ts] \<and> (ident = cid \<or> (\<exists>p q. ssh = p @ ident @ q))"
    unfolding contains_iff by blast
next
  have "find_container_for_user_by_name f owner ident = None \<longleftrightarrow>
      (\<forall>c ssh n. (c, ssh, n) \<in> set (get_user_servers f owner) \<longrightarrow> \<not> (ident = c \<or> contains ident ssh))"
    unfolding find_container_for_user_by_name_def find_loop_None by auto
  also have "\<dots> \<longleftrightarrow> \<not> (\<exists>l\<in>set (read_database_lines f). \<exists>c ssh ts.
              split CHR ''|'' l = [owner, c, ssh, ts] \<and> (ident = c \<or> contains ident ssh))"
    unfolding get_user_servers_def servers_loop_set by blast
  finally show "find_container_for_user_by_name f owner ident = None \<longleftrightarrow>
        \<not> (\<exists>l\<in>set (read_database_lines f). \<exists>c ssh ts.
              split CHR ''|'' l = [owner, c, ssh, ts] \<and> (ident = c \<or> (\<exists>p q. ssh = p @ ident @ q)))"
    unfolding contains_iff .
qed


lemma two_owner_lines:
  "read_database_lines two_owner_store = [''alice|c1|ssh a1@host|1700000000'', ''bob|c2|ssh b2@host|1700000001'']"
  by code_simp

lemma find_bob: "find_container_for_user_by_name two_owner_store ''bob'' ''b2@'' = Some ''c2''"
  by code_simp
lemma find_alice: "find_container_for_user_by_name two_owner_store ''alice'' ''b2@'' = None"
  by code_simp

theorem identifier_resolution_witness:
  "find_container_for_user_by_name two_owner_store ''bob'' ''b2@'' = Some ''c2''
   \<and> (\<exists>l\<in>set (read_database_lines two_owner_store). \<exists>ssh ts.
          split CHR ''|'' l = [''bob'', ''c2'', ssh, ts] \<and> (''b2@'' = ''c2'' \<or> (\<exists>p q. ssh = p @ ''b2@'' @ q)))
   \<and> find_container_for_user_by_name two_owner_store ''alice'' ''b2@'' = None
   \<and> \<not> (\<exists>l\<in>set (read_database_lines two_owner_store). \<exists>c ssh ts.
              split CHR ''|'' l = [''alice'', c, ssh, ts] \<and> (''b2@'' = c \<or> (\<exists>p q. ssh = p @ ''b2@'' @ q)))"
  using identifier_resolution [of two_owner_store "''bob''" "''b2@''" "''c2''"]
    identifier_resolution [of two_owner_store "''alice''" "''b2@''" "''c1''"]
    find_bob find_alice
  by blast

section \<open>Removal and lines without separator\<close>

lemma cleanup_error:
  assumes "l \<in> set (read_database_lines (db w))" "CHR ''|'' \<notin> set l"
    and "\<exists>k\<in>set (read_database_lines (db w)). expired (clock env) k"
  shows "cleanup_old_instances env w
     = send Console (CleanupError IndexError)
         (w\<lparr>trace := trace w @ concat (map teardown
              (filter (expired (clock env)) (read_database_lines (db w))))\<rparr>)"
proof -
  let ?ls = "read_database_lines (db w)"
  let ?items = "map removed_item (filter (expired (clock env)) ?ls)"
  have ne: "?ls \<noteq> []" using assms(1) by auto
  have items: "?items \<noteq> []" using assms(3) by (auto simp: filter_empty_conv)
  have "field1 l = Inl IndexError" using assms(2) by (rule field1_no_bar)
  with items assms(1) have "remain_filter ?items ?ls = Inl IndexError"
    by (intro remain_filter_error)
  with ne items show ?thesis
    by (simp add: cleanup_old_instances_def Let_def scan_loop_closed)
qed

text \<open>
  Claim C10 (removal totality). When the store holds a line without \<open>|\<close>,
  \<open>remove_from_database_by_container\<close> raises \<open>IndexError\<close> for every instance id, and so does
  the batch-removal filter of the sweeper for every non-empty list of removed items (it
  runs only with such a list). A sweeper run in which a record expired ends in that
  error after the stop and destroy commands, with the store unchanged. The reads skip the
  line: \<open>get_user_servers\<close> gives the result for the lines without it.
\<close>

theorem removal_totality:
  "l \<in> set (read_database_lines (db w)) \<and> CHR ''|'' \<notin> set l \<longrightarrow>
     remove_from_database_by_container (db w) cid = Inl IndexError
     \<and> (removed_items \<noteq> [] \<longrightarrow>
          remain_filter removed_items (read_database_lines (db w)) = Inl IndexError)
     \<and> ((\<exists>k\<in>set (read_database_lines (db w)). expired (clock env) k) \<longrightarrow>
          db (cleanup_old_instances env w) = db w
          \<and> trace (cleanup_old_instances env w)
              = trace w @ concat (map teardown
                  (filter (expired (clock env)) (read_database_lines (db w))))
                @ [Send Console (CleanupError IndexError)])
     \<and> get_user_servers (db w) u
          = servers_loop u (filter (\<lambda>k. k \<noteq> l) (read_database_lines (db w)))"
proof (intro impI conjI)
  assume a: "l \<in> set (read_database_lines (db w)) \<and> CHR ''|'' \<notin> set l"
  then have f: "field1 l = Inl IndexError" by (simp add: field1_no_bar)
  with a have "remove_filter cid (read_database_lines (db w)) = Inl IndexError"
    by (intro remove_filter_error) simp_all
  then show "remove_from_database_by_container (db w) cid = Inl IndexError"
    by (simp add: remove_from_database_by_container_def)
  show "remain_filter removed_items (read_database_lines (db w)) = Inl IndexError"
    if "removed_items \<noteq> []"
    using that a f by (intro remain_filter_error) simp_all
  have "split CHR ''|'' l = [l]" using a by (simp add: split_no_sep)
  then have "length (split CHR ''|'' l) \<noteq> 4" by simp
  then show "get_user_servers (db w) u
          = servers_loop u (filter (\<lambda>k. k \<noteq> l) (read_database_lines (db w)))"
    unfolding get_user_servers_def by (rule servers_loop_filter_skip)
  assume e: "\<exists>k\<in>set (read_database_lines (db w)). expired (clock env) k"
  have c: "cleanup_old_instances env w
     = send Console (CleanupError IndexError)
         (w\<lparr>trace := trace w @ concat (map teardown
              (filter (expired (clock env)) (read_database_lines (db w))))\<rparr>)"
    using a e cleanup_error [of l w env] by blast
  show "db (cleanup_old_instances env w) = db w" by (simp add: c send_def)
  show "trace (cleanup_old_instances env w)
              = trace w @ concat (map teardown
                  (filter (expired (clock env)) (read_database_lines (db w))))
                @ [Send Console (CleanupError IndexError)]"
    by (simp add: c send_def)
qed

lemma garbage_world_facts:
  "read_database_lines (db garbage_world) = [''alice|c1|ssh a1@host|1000'', ''garbage'']"
  "expired 1700000000 ''alice|c1|ssh a1@host|1000''"
  "\<not> expired 1700000000 ''garbage''"
  "teardown ''alice|c1|ssh a1@host|1000''
     = [Docker [''docker'', ''stop'', ''c1''], Docker [''docker'', ''rm'', ''-f'', ''c1'']]"
  "servers_loop ''alice'' [''alice|c1|ssh a1@host|1000''] = [(''c1'', ''ssh a1@host'', 1000)]"
  "clock alice_env = 1700000000"
  "trace garbage_world = []"
  "filter (\<lambda>k. k \<noteq> ''garbage'') [''alice|c1|ssh a1@host|1000'', ''garbage'']
     = [''alice|c1|ssh a1@host|1000'']"
  by code_simp+

theorem removal_totality_witness:
  "remove_from_database_by_container (db garbage_world) ''c1'' = Inl IndexError
   \<and> remain_filter [(''alice'', ''c1'', ''ssh a1@host'')] (read_database_lines (db garbage_world))
       = Inl IndexError
   \<and> db (cleanup_old_instances alice_env garbage_world) = db garbage_world
   \<and> trace (cleanup_old_instances alice_env garbage_world)
       = [Docker [''docker'', ''stop'', ''c1''], Docker [''docker'', ''rm'', ''-f'', ''c1''],
          Send Console (CleanupError IndexError)]
   \<and> get_user_servers (db garbage_world) ''alice'' = [(''c1'', ''ssh a1@host'', 1000)]"
proof -
  have h: "''garbage'' \<in> set (read_database_lines (db garbage_world)) \<and> CHR ''|'' \<notin> set ''garbage''"
    by (simp add: garbage_world_facts(1))
  have n: "[(''alice'', ''c1'', ''ssh a1@host'')] \<noteq> []" by simp
  have e: "\<exists>k\<in>set (read_database_lines (db garbage_world)). expired (clock alice_env) k"
    by (simp add: garbage_world_facts)
  note x = removal_totality [of "''garbage''" garbage_world "''c1''" "[(''alice'', ''c1'', ''ssh a1@host'')]"
      alice_env "''alice''", THEN mp, OF h]
  note p1 = x [THEN conjunct1]
  note p2 = x [THEN conjunct2, THEN conjunct1, THEN mp, OF n]
  note p3 = x [THEN conjunct2, THEN conjunct2, THEN conjunct1, THEN mp, OF e]
  note p4 = x [THEN conjunct2, THEN conjunct2, THEN conjunct2]
  have t: "trace (cleanup_old_instances alice_env garbage_world)
       = [Docker [''docker'', ''stop'', ''c1''], Docker [''docker'', ''rm'', ''-f'', ''c1''],
          Send Console (CleanupError IndexError)]"
    using p3 [THEN conjunct2] by (simp add: garbage_world_facts)
  have g: "get_user_servers (db garbage_world) ''alice'' = [(''c1'', ''ssh a1@host'', 1000)]"
    using p4 by (simp only: garbage_world_facts)
  from p1 p2 p3 [THEN conjunct1] t g show ?thesis by (intro conjI)
qed

section \<open>Start, restart and regenerate leave the rest of the store alone\<close>

lemma db_send [simp]: "db (send ch m w) = db w"
  by (simp add: send_def)

lemma db_docker [simp]: "db (docker args w) = db w"
  by (simp add: docker_def)

lemma field1_Inr: "field1 l = Inr f \<Longrightarrow> f = instance_id_of l"
  by (auto simp: field1_def instance_id_of_def split: list.splits)

lemma rewrite_loop_map:
  "rewrite_loop cid ssh_line ls = Inr new \<Longrightarrow>
     new = map (\<lambda>l. if instance_id_of l = cid
                     then (case split CHR ''|'' l of
                             [p0, p1, p2, p3] \<Rightarrow> join ''|'' [p0, p1, ssh_line, p3]
                           | _ \<Rightarrow> l)
                     else l) ls"
proof (induction ls arbitrary: new)
  case Nil
  then show ?case by simp
next
  case (Cons l ls)
  from Cons.prems obtain f rest where f: "field1 l = Inr f"
    and r: "rewrite_loop cid ssh_line ls = Inr rest"
    and n: "new = (if f = cid
            then (case split CHR ''|'' l of
                    [p0, p1, p2, p3] \<Rightarrow> join ''|'' [p0, p1, ssh_line, p3]
                  | _ \<Rightarrow> l)
            else l) # rest"
    by (auto split: sum.splits)
  from f have "f = instance_id_of l" by (rule field1_Inr)
  with Cons.IH [OF r] n show ?case by simp
qed

lemma rewrite_one_line:
  assumes "distinct (map instance_id_of ls)" "l0 \<in> set ls"
    and "split CHR ''|'' l0 = [owner, cid, old, ts]"
  shows "map (\<lambda>l. if instance_id_of l = cid
                     then (case split CHR ''|'' l of
                             [p0, p1, p2, p3] \<Rightarrow> join ''|'' [p0, p1, ssh_line, p3]
                           | _ \<Rightarrow> l)
                     else l) ls
         = map (\<lambda>l. if l = l0 then owner @ ''|'' @ cid @ ''|'' @ ssh_line @ ''|'' @ ts else l) ls"
proof (rule map_cong [OF refl])
  fix l assume l: "l \<in> set ls"
  have inj: "inj_on instance_id_of (set ls)" using assms(1) by (simp add: distinct_map)
  have id0: "instance_id_of l0 = cid" using assms(3) by (simp add: instance_id_of_def)
  show "(if instance_id_of l = cid
         then (case split CHR ''|'' l of
                 [p0, p1, p2, p3] \<Rightarrow> join ''|'' [p0, p1, ssh_line, p3]
               | _ \<Rightarrow> l)
         else l)
        = (if l = l0 then owner @ ''|'' @ cid @ ''|'' @ ssh_line @ ''|'' @ ts else l)"
  proof (cases "l = l0")
    case True
    with id0 assms(3) show ?thesis by simp
  next
    case False
    with inj l assms(2) id0 have "instance_id_of l \<noteq> cid" by (auto dest: inj_onD)
    with False show ?thesis by simp
  qed
qed

lemma found_record:
  assumes "find_container_for_user_by_name f u name = Some cid"
  shows "\<exists>old ts. (u @ ''|'' @ cid @ ''|'' @ old @ ''|'' @ ts) \<in> set (read_database_lines f)
           \<and> split CHR ''|'' (u @ ''|'' @ cid @ ''|'' @ old @ ''|'' @ ts) = [u, cid, old, ts]"
proof -
  from assms obtain old n where "(cid, old, n) \<in> set (get_user_servers f u)"
    unfolding find_container_for_user_by_name_def by (blast dest: find_loop_Some)
  then obtain l ts where l: "l \<in> set (read_database_lines f)"
    and s: "split CHR ''|'' l = [u, cid, old, ts]"
    unfolding get_user_servers_def servers_loop_set by blast
  have "join ''|'' (split CHR ''|'' l) = l" by (rule join_split)
  with s have "l = u @ ''|'' @ cid @ ''|'' @ old @ ''|'' @ ts" by simp
  with l s show ?thesis by blast
qed

lemma stored_line_ends: "stored_line l \<Longrightarrow> \<not> isspace (hd l) \<and> \<not> isspace (last l)"
  using strip_ends [of l] by (auto simp: stored_line_def)

lemma new_line_stored:
  assumes "stored_line (owner @ ''|'' @ cid @ ''|'' @ old @ ''|'' @ ts)"
    and "LF \<notin> set ssh_line" "CR \<notin> set ssh_line"
  shows "stored_line (owner @ ''|'' @ cid @ ''|'' @ ssh_line @ ''|'' @ ts)"
proof -
  let ?l = "owner @ ''|'' @ cid @ ''|'' @ old @ ''|'' @ ts"
  let ?l' = "owner @ ''|'' @ cid @ ''|'' @ ssh_line @ ''|'' @ ts"
  have e: "\<not> isspace (hd ?l)" "\<not> isspace (last ?l)" using assms(1) stored_line_ends by blast+
  have h: "hd ?l' = hd ?l" by (cases owner; simp)
  have t: "last ?l' = last ?l" by (cases ts rule: rev_cases; simp)
  have ne: "?l' \<noteq> []" by simp
  have "strip ?l' = ?l'" using ne e h t by (intro strip_id) simp_all
  moreover have "LF \<notin> set ?l'" "CR \<notin> set ?l'"
    using assms by (simp_all add: stored_line_def)
  ultimately show ?thesis using ne by (simp add: stored_line_def)
qed

lemma one_line_read_back:
  assumes "(owner @ ''|'' @ cid @ ''|'' @ old @ ''|'' @ ts) \<in> set (read_database_lines f)"
    and "LF \<notin> set ssh_line" "CR \<notin> set ssh_line"
  shows "read_database_lines (write_database_lines
           (map (\<lambda>l. if l = owner @ ''|'' @ cid @ ''|'' @ old @ ''|'' @ ts
                      then owner @ ''|'' @ cid @ ''|'' @ ssh_line @ ''|'' @ ts else l)
              (read_database_lines f)))
         = map (\<lambda>l. if l = owner @ ''|'' @ cid @ ''|'' @ old @ ''|'' @ ts
                      then owner @ ''|'' @ cid @ ''|'' @ ssh_line @ ''|'' @ ts else l)
              (read_database_lines f)"
proof (rule read_write)
  have s: "stored_line l" if "l \<in> set (read_database_lines f)" for l
    using that by (rule read_stored)
  have "stored_line (owner @ ''|'' @ cid @ ''|'' @ ssh_line @ ''|'' @ ts)"
    using s [OF assms(1)] assms(2,3) by (rule new_line_stored)
  with s show "\<forall>l\<in>set (map (\<lambda>l. if l = owner @ ''|'' @ cid @ ''|'' @ old @ ''|'' @ ts
                      then owner @ ''|'' @ cid @ ''|'' @ ssh_line @ ''|'' @ ts else l)
              (read_database_lines f)). stored_line l"
    by auto
qed

lemma new_line_fields:
  assumes "split CHR ''|'' (owner @ ''|'' @ cid @ ''|'' @ old @ ''|'' @ ts) = [owner, cid, old, ts]"
    and "CHR ''|'' \<notin> set ssh_line"
  shows "split CHR ''|'' (owner @ ''|'' @ cid @ ''|'' @ ssh_line @ ''|'' @ ts)
           = [owner, cid, ssh_line, ts]"
proof -
  have "CHR ''|'' \<notin> set owner" "CHR ''|'' \<notin> set cid" "CHR ''|'' \<notin> set ts"
    using split_pieces [of _ "CHR ''|''" "owner @ ''|'' @ cid @ ''|'' @ old @ ''|'' @ ts"] assms(1)
    by simp_all
  with assms(2) show ?thesis by (simp add: split_append split_no_sep)
qed

lemma update_ssh_frame:
  assumes "update_ssh k env cid ssh_line w = (w', e)"
  shows "db w' = db w \<or>
    (\<exists>new. rewrite_loop cid ssh_line (read_database_lines (db w)) = Inr new
       \<and> db w' = write_database_lines new)"
proof (cases "rewrite_loop cid ssh_line (read_database_lines (db w))")
  case (Inl x)
  with assms show ?thesis by (simp add: update_ssh_def)
next
  case (Inr new)
  have "db w' = write_database_lines new"
    using assms Inr by (auto simp: update_ssh_def write_db_def Let_def split: if_splits)
  with Inr show ?thesis by blast
qed

lemma recapture_frame:
  assumes "recapture k env cid w = (w', e)"
  shows "db w' = db w \<or>
    (\<exists>ssh_line new. fst (capture_ssh_session_line_from_process (process env) 15) = Some ssh_line
       \<and> rewrite_loop cid ssh_line (read_database_lines (db w)) = Inr new
       \<and> db w' = write_database_lines new)"
proof (cases "exec_error env")
  case (Some x)
  with assms show ?thesis by (simp add: recapture_def)
next
  case None
  show ?thesis
  proof (cases "fst (capture_ssh_session_line_from_process (process env) 15)")
    case None
    with \<open>exec_error env = None\<close> assms show ?thesis by (auto simp: recapture_def Let_def)
  next
    case (Some ssh_line)
    with \<open>exec_error env = None\<close> assms
    have "update_ssh k env cid ssh_line (docker [''exec'', cid, ''tmate'', ''-F''] w) = (w', e)"
      by (simp add: recapture_def Let_def)
    from update_ssh_frame [OF this] Some show ?thesis by auto
  qed
qed

lemma cmd_start_frame:
  assumes "cmd_start env itx name w = (w', e)"
  shows "db w' = db w \<or>
    (\<exists>cid ssh_line new. find_container_for_user_by_name (db w) (user_str itx) name = Some cid
       \<and> fst (capture_ssh_session_line_from_process (process env) 15) = Some ssh_line
       \<and> rewrite_loop cid ssh_line (read_database_lines (db w)) = Inr new
       \<and> db w' = write_database_lines new)"
proof (cases "find_container_for_user_by_name (db w) (user_str itx) name")
  case None
  with assms show ?thesis by (auto simp: cmd_start_def)
next
  case (Some cid)
  show ?thesis
  proof (cases "cid = [] \<or> \<not> command_ok env")
    case True
    with Some assms show ?thesis by (auto simp: cmd_start_def Let_def split: if_splits)
  next
    case False
    with Some assms have "recapture Start env cid (docker [''start'', cid] w) = (w', e)"
      by (simp add: cmd_start_def Let_def)
    from recapture_frame [OF this] Some show ?thesis by auto
  qed
qed

lemma cmd_restart_frame:
  assumes "cmd_restart env itx name w = (w', e)"
  shows "db w' = db w \<or>
    (\<exists>cid ssh_line new. find_container_for_user_by_name (db w) (user_str itx) name = Some cid
       \<and> fst (capture_ssh_session_line_from_process (process env) 15) = Some ssh_line
       \<and> rewrite_loop cid ssh_line (read_database_lines (db w)) = Inr new
       \<and> db w' = write_database_lines new)"
proof (cases "find_container_for_user_by_name (db w) (user_str itx) name")
  case None
  with assms show ?thesis by (auto simp: cmd_restart_def)
next
  case (Some cid)
  show ?thesis
  proof (cases "cid = [] \<or> \<not> command_ok env")
    case True
    with Some assms show ?thesis by (auto simp: cmd_restart_def Let_def split: if_splits)
  next
    case False
    with Some assms have "recapture Restart env cid (docker [''restart'', cid] w) = (w', e)"
      by (simp add: cmd_restart_def Let_def)
    from recapture_frame [OF this] Some show ?thesis by auto
  qed
qed

lemma cmd_regen_ssh_frame:
  assumes "cmd_regen_ssh env itx name w = (w', e)"
  shows "db w' = db w \<or>
    (\<exists>cid ssh_line new. find_container_for_user_by_name (db w) (user_str itx) name = Some cid
       \<and> fst (capture_ssh_session_line_from_process (process env) 15) = Some ssh_line
       \<and> rewrite_loop cid ssh_line (read_database_lines (db w)) = Inr new
       \<and> db w' = write_database_lines new)"
proof (cases "find_container_for_user_by_name (db w) (user_str itx) name")
  case None
  with assms show ?thesis by (auto simp: cmd_regen_ssh_def)
next
  case (Some cid)
  show ?thesis
  proof (cases "cid = []")
    case True
    with Some assms show ?thesis by (auto simp: cmd_regen_ssh_def)
  next
    case False
    obtain w1 e1 where r: "recapture Regen env cid w = (w1, e1)" by (cases "recapture Regen env cid w")
    with False Some assms have "db w' = db w1"
      by (cases e1) (auto simp: cmd_regen_ssh_def)
    with recapture_frame [OF r] Some show ?thesis by auto
  qed
qed

lemma cmd_stop_db: "db (fst (cmd_stop env itx name w)) = db w"
  by (simp add: cmd_stop_def Let_def split: option.splits)

lemma one_record_frame:
  assumes "distinct (map instance_id_of (read_database_lines (db w)))"
    and "find_container_for_user_by_name (db w) u name = Some cid"
    and "rewrite_loop cid ssh_line (read_database_lines (db w)) = Inr new"
    and "db w' = write_database_lines new"
  shows "\<exists>old ts.
      (u @ ''|'' @ cid @ ''|'' @ old @ ''|'' @ ts) \<in> set (read_database_lines (db w))
      \<and> split CHR ''|'' (u @ ''|'' @ cid @ ''|'' @ old @ ''|'' @ ts) = [u, cid, old, ts]
      \<and> db w' = write_database_lines
          (map (\<lambda>l. if l = u @ ''|'' @ cid @ ''|'' @ old @ ''|'' @ ts
                     then u @ ''|'' @ cid @ ''|'' @ ssh_line @ ''|'' @ ts else l)
             (read_database_lines (db w)))
      \<and> (LF \<notin> set ssh_line \<and> CR \<notin> set ssh_line \<longrightarrow>
           read_database_lines (db w')
             = map (\<lambda>l. if l = u @ ''|'' @ cid @ ''|'' @ old @ ''|'' @ ts
                         then u @ ''|'' @ cid @ ''|'' @ ssh_line @ ''|'' @ ts else l)
                 (read_database_lines (db w)))
      \<and> (CHR ''|'' \<notin> set ssh_line \<longrightarrow>
           split CHR ''|'' (u @ ''|'' @ cid @ ''|'' @ ssh_line @ ''|'' @ ts) = [u, cid, ssh_line, ts])"
proof -
  from found_record [OF assms(2)] obtain old ts
    where m: "(u @ ''|'' @ cid @ ''|'' @ old @ ''|'' @ ts) \<in> set (read_database_lines (db w))"
      and s: "split CHR ''|'' (u @ ''|'' @ cid @ ''|'' @ old @ ''|'' @ ts) = [u, cid, old, ts]"
    by blast
  let ?new = "map (\<lambda>l. if l = u @ ''|'' @ cid @ ''|'' @ old @ ''|'' @ ts
                     then u @ ''|'' @ cid @ ''|'' @ ssh_line @ ''|'' @ ts else l)
             (read_database_lines (db w))"
  have n: "new = ?new"
    using rewrite_loop_map [OF assms(3)] rewrite_one_line [OF assms(1) m s] by simp
  have d: "db w' = write_database_lines ?new" using assms(4) n by simp
  have r: "LF \<notin> set ssh_line \<and> CR \<notin> set ssh_line \<longrightarrow> read_database_lines (db w') = ?new"
    using one_line_read_back [OF m] d by simp
  have p: "CHR ''|'' \<notin> set ssh_line \<longrightarrow>
           split CHR ''|'' (u @ ''|'' @ cid @ ''|'' @ ssh_line @ ''|'' @ ts) = [u, cid, ssh_line, ts]"
    using new_line_fields [OF s] by simp
  from m s d r p show ?thesis by blast
qed

text \<open>
  Claim C9 (controller frame), as amended. Take a store whose lines have pairwise
  distinct instance ids. Whenever start, restart or regenerate changes the store, it
  writes the lines it read with one line replaced: the record of the invoking owner with
  the resolved instance id, which keeps its owner, its instance id and its timestamp
  around the captured connection string. Every other line is written as it was read.
  Reading the new store gives exactly these lines when the captured line holds no line
  break, and the replaced line has the four fields owner, instance id, captured line and
  timestamp when the captured line holds no \<open>|\<close>. Stop leaves every store as it is.
\<close>

theorem controller_frame:
  "((cmd_start env itx name w = (w', e) \<or> cmd_restart env itx name w = (w', e)
       \<or> cmd_regen_ssh env itx name w = (w', e))
      \<and> distinct (map instance_id_of (read_database_lines (db w))) \<longrightarrow>
      db w' = db w \<or>
      (\<exists>cid ssh_line old ts.
          find_container_for_user_by_name (db w) (user_str itx) name = Some cid
          \<and> fst (capture_ssh_session_line_from_process (process env) 15) = Some ssh_line
          \<and> (user_str itx @ ''|'' @ cid @ ''|'' @ old @ ''|'' @ ts)
               \<in> set (read_database_lines (db w))
          \<and> split CHR ''|'' (user_str itx @ ''|'' @ cid @ ''|'' @ old @ ''|'' @ ts)
               = [user_str itx, cid, old, ts]
          \<and> db w' = write_database_lines
               (map (\<lambda>l. if l = user_str itx @ ''|'' @ cid @ ''|'' @ old @ ''|'' @ ts
                          then user_str itx @ ''|'' @ cid @ ''|'' @ ssh_line @ ''|'' @ ts else l)
                  (read_database_lines (db w)))
          \<and> (LF \<notin> set ssh_line \<and> CR \<notin> set ssh_line \<longrightarrow>
               read_database_lines (db w')
                 = map (\<lambda>l. if l = user_str itx @ ''|'' @ cid @ ''|'' @ old @ ''|'' @ ts
                             then user_str itx @ ''|'' @ cid @ ''|'' @ ssh_line @ ''|'' @ ts else l)
                     (read_database_lines (db w)))
          \<and> (CHR ''|'' \<notin> set ssh_line \<longrightarrow>
               split CHR ''|'' (user_str itx @ ''|'' @ cid @ ''|'' @ ssh_line @ ''|'' @ ts)
                 = [user_str itx, cid, ssh_line, ts])))
   \<and> db (fst (cmd_stop env itx name w)) = db w"
proof (intro conjI impI)
  assume a: "(cmd_start env itx name w = (w', e) \<or> cmd_restart env itx name w = (w', e)
       \<or> cmd_regen_ssh env itx name w = (w', e))
      \<and> distinct (map instance_id_of (read_database_lines (db w)))"
  then have dist: "distinct (map instance_id_of (read_database_lines (db w)))" by simp
  from a have "cmd_start env itx name w = (w', e) \<or> cmd_restart env itx name w = (w', e)
       \<or> cmd_regen_ssh env itx name w = (w', e)" by simp
  then have "db w' = db w \<or>
    (\<exists>cid ssh_line new. find_container_for_user_by_name (db w) (user_str itx) name = Some cid
       \<and> fst (capture_ssh_session_line_from_process (process env) 15) = Some ssh_line
       \<and> rewrite_loop cid ssh_line (read_database_lines (db w)) = Inr new
       \<and> db w' = write_database_lines new)"
    by (elim disjE) (rule cmd_start_frame cmd_restart_frame cmd_regen_ssh_frame, assumption)+
  then show "db w' = db w \<or>
      (\<exists>cid ssh_line old ts.
          find_container_for_user_by_name (db w) (user_str itx) name = Some cid
          \<and> fst (capture_ssh_session_line_from_process (process env) 15) = Some ssh_line
          \<and> (user_str itx @ ''|'' @ cid @ ''|'' @ old @ ''|'' @ ts)
               \<in> set (read_database_lines (db w))
          \<and> split CHR ''|'' (user_str itx @ ''|'' @ cid @ ''|'' @ old @ ''|'' @ ts)
               = [user_str itx, cid, old, ts]
          \<and> db w' = write_database_lines
               (map (\<lambda>l. if l = user_str itx @ ''|'' @ cid @ ''|'' @ old @ ''|'' @ ts
                          then user_str itx @ ''|'' @ cid @ ''|'' @ ssh_line @ ''|'' @ ts else l)
                  (read_database_lines (db w)))
          \<and> (LF \<notin> set ssh_line \<and> CR \<notin> set ssh_line \<longrightarrow>
               read_database_lines (db w')
                 = map (\<lambda>l. if l = user_str itx @ ''|'' @ cid @ ''|'' @ old @ ''|'' @ ts
                             then user_str itx @ ''|'' @ cid @ ''|'' @ ssh_line @ ''|'' @ ts else l)
                     (read_database_lines (db w)))
          \<and> (CHR ''|'' \<notin> set ssh_line \<longrightarrow>
               split CHR ''|'' (user_str itx @ ''|'' @ cid @ ''|'' @ ssh_line @ ''|'' @ ts)
                 = [user_str itx, cid, ssh_line, ts]))"
  proof
    assume "db w' = db w"
    then show ?thesis by (rule disjI1)
  next
    assume "\<exists>cid ssh_line new. find_container_for_user_by_name (db w) (user_str itx) name = Some cid
       \<and> fst (capture_ssh_session_line_from_process (process env) 15) = Some ssh_line
       \<and> rewrite_loop cid ssh_line (read_database_lines (db w)) = Inr new
       \<and> db w' = write_database_lines new"
    then obtain cid ssh_line new
      where 1: "find_container_for_user_by_name (db w) (user_str itx) name = Some cid"
        and 2: "fst (capture_ssh_session_line_from_process (process env) 15) = Some ssh_line"
        and 3: "rewrite_loop cid ssh_line (read_database_lines (db w)) = Inr new"
        and 4: "db w' = write_database_lines new"
      by blast
    from one_record_frame [OF dist 1 3 4] 1 2 show ?thesis by blast
  qed
next
  show "db (fst (cmd_stop env itx name w)) = db w" by (rule cmd_stop_db)
qed

lemma controller_witness_facts:
  "db (fst (cmd_start alice_env alice ''c1'' two_owner_world))
     = Some (''alice|c1|ssh session: alice@host -p 2222|1700000000'' @ [LF]
             @ ''bob|c2|ssh b2@host|1700000001'' @ [LF])"
  "db two_owner_world = Some (''alice|c1|ssh a1@host|1700000000'' @ [LF]
             @ ''bob|c2|ssh b2@host|1700000001'' @ [LF])"
  "fst (capture_ssh_session_line_from_process (process alice_env) 15)
     = Some ''ssh session: alice@host -p 2222''"
  "distinct (map instance_id_of (read_database_lines (db two_owner_world)))"
  "user_str alice = ''alice''"
  by code_simp+

theorem controller_frame_witness:
  "db (fst (cmd_stop alice_env alice ''c1'' two_owner_world)) = db two_owner_world
   \<and> db (fst (cmd_start alice_env alice ''c1'' two_owner_world))
       = Some (''alice|c1|ssh session: alice@host -p 2222|1700000000'' @ [LF]
               @ ''bob|c2|ssh b2@host|1700000001'' @ [LF])
   \<and> (\<exists>cid old ts.
         (user_str alice @ ''|'' @ cid @ ''|'' @ old @ ''|'' @ ts)
            \<in> set (read_database_lines (db two_owner_world))
         \<and> read_database_lines (db (fst (cmd_start alice_env alice ''c1'' two_owner_world)))
            = map (\<lambda>l. if l = user_str alice @ ''|'' @ cid @ ''|'' @ old @ ''|'' @ ts
                        then user_str alice @ ''|'' @ cid @ ''|''
                             @ ''ssh session: alice@host -p 2222'' @ ''|'' @ ts
                        else l)
                (read_database_lines (db two_owner_world))
         \<and> split CHR ''|'' (user_str alice @ ''|'' @ cid @ ''|''
                             @ ''ssh session: alice@host -p 2222'' @ ''|'' @ ts)
            = [user_str alice, cid, ''ssh session: alice@host -p 2222'', ts])"
proof -
  let ?w' = "fst (cmd_start alice_env alice ''c1'' two_owner_world)"
  let ?e = "snd (cmd_start alice_env alice ''c1'' two_owner_world)"
  note x = controller_frame [of alice_env alice "''c1''" two_owner_world ?w' ?e]
  have c: "(cmd_start alice_env alice ''c1'' two_owner_world = (?w', ?e)
       \<or> cmd_restart alice_env alice ''c1'' two_owner_world = (?w', ?e)
       \<or> cmd_regen_ssh alice_env alice ''c1'' two_owner_world = (?w', ?e))
      \<and> distinct (map instance_id_of (read_database_lines (db two_owner_world)))"
    using controller_witness_facts(4) by simp
  have n: "db ?w' \<noteq> db two_owner_world"
    by (simp only: controller_witness_facts(1,2)) simp
  from x [THEN conjunct1, THEN mp, OF c] n obtain cid ssh_line old ts
    where 2: "fst (capture_ssh_session_line_from_process (process alice_env) 15) = Some ssh_line"
      and 3: "(user_str alice @ ''|'' @ cid @ ''|'' @ old @ ''|'' @ ts)
               \<in> set (read_database_lines (db two_owner_world))"
      and 5: "LF \<notin> set ssh_line \<and> CR \<notin> set ssh_line \<longrightarrow>
               read_database_lines (db ?w')
                 = map (\<lambda>l. if l = user_str alice @ ''|'' @ cid @ ''|'' @ old @ ''|'' @ ts
                             then user_str alice @ ''|'' @ cid @ ''|'' @ ssh_line @ ''|'' @ ts else l)
                     (read_database_lines (db two_owner_world))"
      and 6: "CHR ''|'' \<notin> set ssh_line \<longrightarrow>
               split CHR ''|'' (user_str alice @ ''|'' @ cid @ ''|'' @ ssh_line @ ''|'' @ ts)
                 = [user_str alice, cid, ssh_line, ts]"
    by blast
  from 2 have s: "ssh_line = ''ssh session: alice@host -p 2222''"
    by (simp only: controller_witness_facts(3) option.inject)
  have clean: "LF \<notin> set ''ssh session: alice@host -p 2222'' \<and> CR \<notin> set ''ssh session: alice@host -p 2222''"
    "CHR ''|'' \<notin> set ''ssh session: alice@host -p 2222''"
    by simp_all
  note r = 5 [unfolded s, THEN mp, OF clean(1)]
  note p = 6 [unfolded s, THEN mp, OF clean(2)]
  from 3 r p have "\<exists>cid old ts.
         (user_str alice @ ''|'' @ cid @ ''|'' @ old @ ''|'' @ ts)
            \<in> set (read_database_lines (db two_owner_world))
         \<and> read_database_lines (db ?w')
            = map (\<lambda>l. if l = user_str alice @ ''|'' @ cid @ ''|'' @ old @ ''|'' @ ts
                        then user_str alice @ ''|'' @ cid @ ''|''
                             @ ''ssh session: alice@host -p 2222'' @ ''|'' @ ts
                        else l)
                (read_database_lines (db two_owner_world))
         \<and> split CHR ''|'' (user_str alice @ ''|'' @ cid @ ''|''
                             @ ''ssh session: alice@host -p 2222'' @ ''|'' @ ts)
            = [user_str alice, cid, ''ssh session: alice@host -p 2222'', ts]"
    by (intro exI conjI)
  with x [THEN conjunct2] controller_witness_facts(1) show ?thesis by (intro conjI)
qed

lemma controller_counter_facts:
  "get_user_servers (db shared_id_world) ''bob'' = [(''c1'', ''ssh b2@host'', 1700000000)]"
  "get_user_servers (db (fst (cmd_start alice_env alice ''c1'' shared_id_world))) ''bob''
     = [(''c1'', ''ssh session: alice@host -p 2222'', 1700000000)]"
  "get_user_servers (db two_owner_world) ''alice'' = [(''c1'', ''ssh a1@host'', 1700000000)]"
  "get_user_servers (db (fst (cmd_regen_ssh pipe_env alice ''c1'' two_owner_world))) ''alice'' = []"
  by code_simp+

theorem controller_frame_counterexample:
  "get_user_servers (db shared_id_world) ''bob'' = [(''c1'', ''ssh b2@host'', 1700000000)]
   \<and> get_user_servers (db (fst (cmd_start alice_env alice ''c1'' shared_id_world))) ''bob''
       = [(''c1'', ''ssh session: alice@host -p 2222'', 1700000000)]
   \<and> get_user_servers (db two_owner_world) ''alice'' = [(''c1'', ''ssh a1@host'', 1700000000)]
   \<and> get_user_servers (db (fst (cmd_regen_ssh pipe_env alice ''c1'' two_owner_world))) ''alice'' = []"
  using controller_counter_facts by (intro conjI)

section \<open>The sweeper run\<close>

lemma log_loop_closed:
  "log_loop m chs w = w\<lparr>trace := trace w @ map (\<lambda>ok. Send LogChannel m) (filter (\<lambda>ok. ok) chs)\<rparr>"
  by (induction chs arbitrary: w) (auto simp: send_def)

lemma notify_deletion_closed:
  "notify_deletion env u c s w = w\<lparr>trace := trace w @ notify_events env u c s\<rparr>"
  by (simp add: notify_deletion_def notify_events_def log_loop_closed send_def Let_def)

lemma notify_loop_closed:
  "notify_loop env (map removed_item ex) w
     = w\<lparr>trace := trace w @ concat (map (removal_notices env) ex)\<rparr>"
proof (induction ex arbitrary: w)
  case Nil
  show ?case by simp
next
  case (Cons l ex)
  obtain u c s where r: "removed_item l = (u, c, s)" by (cases "removed_item l") auto
  show ?case by (simp add: r Cons notify_deletion_closed removal_notices_def)
qed

lemma expired_id:
  "expired now k \<Longrightarrow> (\<lambda>(u, c, s). c) (removed_item k) = instance_id_of k"
  by (auto simp: expired_def removed_item_def instance_id_of_def split: list.splits)

lemma distinct_ids_filter:
  assumes "distinct (map instance_id_of ls)"
  shows "filter (\<lambda>l. instance_id_of l
            \<notin> set (map (\<lambda>(u, c, s). c) (map removed_item (filter (expired now) ls)))) ls
         = filter (\<lambda>l. \<not> expired now l) ls"
proof (rule filter_cong [OF refl])
  fix l assume l: "l \<in> set ls"
  have inj: "inj_on instance_id_of (set ls)" using assms by (simp add: distinct_map)
  have ids: "set (map (\<lambda>(u, c, s). c) (map removed_item (filter (expired now) ls)))
      = instance_id_of ` {k \<in> set ls. expired now k}"
  proof -
    have "map (\<lambda>(u, c, s). c) (map removed_item (filter (expired now) ls))
        = map instance_id_of (filter (expired now) ls)"
      unfolding list.map_comp by (rule map_cong [OF refl]) (use expired_id in auto)
    then show ?thesis by auto
  qed
  show "(instance_id_of l \<notin> set (map (\<lambda>(u, c, s). c) (map removed_item (filter (expired now) ls))))
      = (\<not> expired now l)"
  proof
    assume "instance_id_of l \<notin> set (map (\<lambda>(u, c, s). c) (map removed_item (filter (expired now) ls)))"
    then show "\<not> expired now l" unfolding ids using l by blast
  next
    assume n: "\<not> expired now l"
    show "instance_id_of l \<notin> set (map (\<lambda>(u, c, s). c) (map removed_item (filter (expired now) ls)))"
    proof
      assume "instance_id_of l \<in> set (map (\<lambda>(u, c, s). c) (map removed_item (filter (expired now) ls)))"
      then obtain k where "k \<in> set ls" "expired now k" "instance_id_of k = instance_id_of l"
        unfolding ids by auto
      with inj l have "k = l" by (auto dest: inj_onD)
      with \<open>expired now k\<close> n show False by simp
    qed
  qed
qed

lemma cleanup_closed:
  assumes "\<forall>l\<in>set (read_database_lines (db w)). CHR ''|'' \<in> set l"
    and "distinct (map instance_id_of (read_database_lines (db w)))"
  shows "cleanup_old_instances env w =
       (if filter (expired (clock env)) (read_database_lines (db w)) = [] then w
        else w\<lparr>db := write_database_lines
                      (filter (\<lambda>l. \<not> expired (clock env) l) (read_database_lines (db w))),
               trace := trace w
                 @ concat (map teardown (filter (expired (clock env)) (read_database_lines (db w))))
                 @ [FileWrite]
                 @ concat (map (removal_notices env) (filter (expired (clock env)) (read_database_lines (db w))))\<rparr>)"
proof -
  let ?ls = "read_database_lines (db w)"
  let ?ex = "filter (expired (clock env)) ?ls"
  show ?thesis
  proof (cases "?ex = []")
    case True
    then show ?thesis by (simp add: cleanup_old_instances_def Let_def scan_loop_closed)
  next
    case False
    then have ne: "?ls \<noteq> []" by auto
    have rf: "remain_filter (map removed_item ?ex) ?ls
        = Inr (filter (\<lambda>l. \<not> expired (clock env) l) ?ls)"
      using assms(1,2) by (simp only: remain_filter_bar distinct_ids_filter)
    show ?thesis
      using False ne
      by (simp add: cleanup_old_instances_def Let_def scan_loop_closed rf
          notify_loop_closed write_db_def)
  qed
qed


lemma expired_record_line:
  assumes "list_all (\<lambda>x. CHR ''|'' \<notin> set x) [a, b, c, d]"
  shows "split CHR ''|'' (record_line (a, b, c, d)) = [a, b, c, d]"
  using assms by (simp add: record_line_def split_append split_no_sep)

text \<open>
  Claim C5 (sweeper postcondition), as amended. Take a store in which every line has a
  second field and no two lines share an instance id, in any environment. A sweeper run
  stops and destroys the instance of exactly the four-field lines whose age has reached
  the time to live, in store order. If there is such a line, it then writes the store
  once, keeping exactly the other lines, and after that performs one \<open>notify_deletion\<close>
  per removed line, in store order. If there is none, the run changes nothing: the store
  is not written. A four-field line is expired exactly when the time minus its timestamp
  is at least 2592000 seconds. One \<open>notify_deletion\<close> sends what \<open>notify_events\<close> lists;
  when the owner is reached and exactly one log channel is found and accepts, that is one
  owner notification and one audit notification.
\<close>

theorem sweeper_postcondition:
  "((\<forall>l\<in>set (read_database_lines (db w)). CHR ''|'' \<in> set l)
     \<and> distinct (map instance_id_of (read_database_lines (db w))) \<longrightarrow>
     cleanup_old_instances env w =
       (if filter (expired (clock env)) (read_database_lines (db w)) = [] then w
        else w\<lparr>db := write_database_lines
                      (filter (\<lambda>l. \<not> expired (clock env) l) (read_database_lines (db w))),
               trace := trace w
                 @ concat (map teardown (filter (expired (clock env)) (read_database_lines (db w))))
                 @ [FileWrite]
                 @ concat (map (removal_notices env)
                     (filter (expired (clock env)) (read_database_lines (db w))))\<rparr>))
   \<and> (list_all (\<lambda>x. CHR ''|'' \<notin> set x) [a, b, c, d] \<longrightarrow>
        (expired now (record_line (a, b, c, d)) \<longleftrightarrow> now - int_or_zero d \<ge> 2592000)
        \<and> teardown (record_line (a, b, c, d))
            = [Docker [''docker'', ''stop'', b], Docker [''docker'', ''rm'', ''-f'', b]]
        \<and> removal_notices env (record_line (a, b, c, d)) = notify_events env a b c)
   \<and> trace (notify_deletion env a b c w) = trace w @ notify_events env a b c
   \<and> db (notify_deletion env a b c w) = db w
   \<and> (dm_delivered env a \<and> log_channels env = [True] \<longrightarrow>
        notify_events env a b c
          = [Send DirectMessage (AutoDeleted a b c), Send LogChannel (AutoDeleted a b c)])"
proof (intro conjI impI)
  assume "(\<forall>l\<in>set (read_database_lines (db w)). CHR ''|'' \<in> set l)
     \<and> distinct (map instance_id_of (read_database_lines (db w)))"
  then show "cleanup_old_instances env w =
       (if filter (expired (clock env)) (read_database_lines (db w)) = [] then w
        else w\<lparr>db := write_database_lines
                      (filter (\<lambda>l. \<not> expired (clock env) l) (read_database_lines (db w))),
               trace := trace w
                 @ concat (map teardown (filter (expired (clock env)) (read_database_lines (db w))))
                 @ [FileWrite]
                 @ concat (map (removal_notices env)
                     (filter (expired (clock env)) (read_database_lines (db w))))\<rparr>)"
    by (intro cleanup_closed) simp_all
next
  assume "list_all (\<lambda>x. CHR ''|'' \<notin> set x) [a, b, c, d]"
  then have s: "split CHR ''|'' (record_line (a, b, c, d)) = [a, b, c, d]"
    by (rule expired_record_line)
  show "expired now (record_line (a, b, c, d)) \<longleftrightarrow> now - int_or_zero d \<ge> 2592000"
    by (simp add: expired_def s INSTANCE_TTL_SECONDS_def)
  show "teardown (record_line (a, b, c, d))
            = [Docker [''docker'', ''stop'', b], Docker [''docker'', ''rm'', ''-f'', b]]"
    by (simp add: teardown_def instance_id_of_def s)
  show "removal_notices env (record_line (a, b, c, d)) = notify_events env a b c"
    by (simp add: removal_notices_def removed_item_def s)
next
  show "trace (notify_deletion env a b c w) = trace w @ notify_events env a b c"
    by (simp add: notify_deletion_closed)
  show "db (notify_deletion env a b c w) = db w"
    by (simp add: notify_deletion_closed)
next
  assume "dm_delivered env a \<and> log_channels env = [True]"
  then show "notify_events env a b c
          = [Send DirectMessage (AutoDeleted a b c), Send LogChannel (AutoDeleted a b c)]"
    by (simp add: notify_events_def)
qed

lemma sweeper_witness_facts:
  "read_database_lines (db old_and_young_world)
     = [''alice|c1|ssh a1@host|1000'', ''bob|c2|ssh b2@host|1700000000'']"
  "filter (expired 1700000000) [''alice|c1|ssh a1@host|1000'', ''bob|c2|ssh b2@host|1700000000'']
     = [''alice|c1|ssh a1@host|1000'']"
  "filter (\<lambda>l. \<not> expired 1700000000 l)
       [''alice|c1|ssh a1@host|1000'', ''bob|c2|ssh b2@host|1700000000'']
     = [''bob|c2|ssh b2@host|1700000000'']"
  "map instance_id_of [''alice|c1|ssh a1@host|1000'', ''bob|c2|ssh b2@host|1700000000''] = [''c1'', ''c2'']"
  "write_database_lines [''bob|c2|ssh b2@host|1700000000'']
     = Some (''bob|c2|ssh b2@host|1700000000'' @ [LF])"
  "record_line (''alice'', ''c1'', ''ssh a1@host'', ''1000'') = ''alice|c1|ssh a1@host|1000''"
  "int_or_zero ''1000'' = 1000"
  "clock alice_env = 1700000000"
  "clock deaf_env = 1700000000"
  by code_simp+

lemma sweeper_witness_events:
  "teardown ''alice|c1|ssh a1@host|1000''
     = [Docker [''docker'', ''stop'', ''c1''], Docker [''docker'', ''rm'', ''-f'', ''c1'']]"
  "removal_notices alice_env ''alice|c1|ssh a1@host|1000''
     = [Send DirectMessage (AutoDeleted ''alice'' ''c1'' ''ssh a1@host''),
        Send LogChannel (AutoDeleted ''alice'' ''c1'' ''ssh a1@host'')]"
  "removal_notices deaf_env ''alice|c1|ssh a1@host|1000''
     = [Send Console (AutoDeleted ''alice'' ''c1'' ''ssh a1@host'')]"
  by code_simp+

theorem sweeper_postcondition_witness:
  "cleanup_old_instances alice_env old_and_young_world
     = \<lparr>db = Some (''bob|c2|ssh b2@host|1700000000'' @ [LF]),
        trace = [Docker [''docker'', ''stop'', ''c1''], Docker [''docker'', ''rm'', ''-f'', ''c1''],
                 FileWrite,
                 Send DirectMessage (AutoDeleted ''alice'' ''c1'' ''ssh a1@host''),
                 Send LogChannel (AutoDeleted ''alice'' ''c1'' ''ssh a1@host'')]\<rparr>
   \<and> cleanup_old_instances deaf_env old_and_young_world
     = \<lparr>db = Some (''bob|c2|ssh b2@host|1700000000'' @ [LF]),
        trace = [Docker [''docker'', ''stop'', ''c1''], Docker [''docker'', ''rm'', ''-f'', ''c1''],
                 FileWrite,
                 Send Console (AutoDeleted ''alice'' ''c1'' ''ssh a1@host'')]\<rparr>
   \<and> expired 2593000 ''alice|c1|ssh a1@host|1000''
   \<and> \<not> expired 2592999 ''alice|c1|ssh a1@host|1000''
   \<and> notify_events alice_env ''alice'' ''c1'' ''ssh a1@host''
       = [Send DirectMessage (AutoDeleted ''alice'' ''c1'' ''ssh a1@host''),
          Send LogChannel (AutoDeleted ''alice'' ''c1'' ''ssh a1@host'')]"
proof -
  have h: "(\<forall>l\<in>set (read_database_lines (db old_and_young_world)). CHR ''|'' \<in> set l)
     \<and> distinct (map instance_id_of (read_database_lines (db old_and_young_world)))"
  proof (intro conjI)
    show "\<forall>l\<in>set (read_database_lines (db old_and_young_world)). CHR ''|'' \<in> set l"
      by (simp only: sweeper_witness_facts(1)) simp
    show "distinct (map instance_id_of (read_database_lines (db old_and_young_world)))"
      by (simp only: sweeper_witness_facts(1,4)) simp
  qed
  have f: "list_all (\<lambda>x. CHR ''|'' \<notin> set x) [''alice'', ''c1'', ''ssh a1@host'', ''1000'']"
    by simp
  have g: "dm_delivered alice_env ''alice'' \<and> log_channels alice_env = [True]"
    by (simp add: alice_env_def)
  note x = sweeper_postcondition [of old_and_young_world alice_env "''alice''" "''c1''"
      "''ssh a1@host''" "''1000''" 2593000]
  note y = sweeper_postcondition [of old_and_young_world deaf_env "''alice''" "''c1''"
      "''ssh a1@host''" "''1000''" 2592999]
  note run = x [THEN conjunct1, THEN mp, OF h]
  note run2 = y [THEN conjunct1, THEN mp, OF h]
  note e1 = x [THEN conjunct2, THEN conjunct1, THEN mp, OF f, THEN conjunct1]
  note e2 = y [THEN conjunct2, THEN conjunct1, THEN mp, OF f, THEN conjunct1]
  note n = x [THEN conjunct2, THEN conjunct2, THEN conjunct2, THEN conjunct2, THEN mp, OF g]
  have 1: "cleanup_old_instances alice_env old_and_young_world
     = \<lparr>db = Some (''bob|c2|ssh b2@host|1700000000'' @ [LF]),
        trace = [Docker [''docker'', ''stop'', ''c1''], Docker [''docker'', ''rm'', ''-f'', ''c1''],
                 FileWrite,
                 Send DirectMessage (AutoDeleted ''alice'' ''c1'' ''ssh a1@host''),
                 Send LogChannel (AutoDeleted ''alice'' ''c1'' ''ssh a1@host'')]\<rparr>"
    by (simp only: run sweeper_witness_facts)
      (simp add: old_and_young_world_def sweeper_witness_events)
  have 2: "cleanup_old_instances deaf_env old_and_young_world
     = \<lparr>db = Some (''bob|c2|ssh b2@host|1700000000'' @ [LF]),
        trace = [Docker [''docker'', ''stop'', ''c1''], Docker [''docker'', ''rm'', ''-f'', ''c1''],
                 FileWrite,
                 Send Console (AutoDeleted ''alice'' ''c1'' ''ssh a1@host'')]\<rparr>"
    by (simp only: run2 sweeper_witness_facts)
      (simp add: old_and_young_world_def sweeper_witness_events)
  have 3: "expired 2593000 ''alice|c1|ssh a1@host|1000''"
    using e1 by (simp only: sweeper_witness_facts)
  have 4: "\<not> expired 2592999 ''alice|c1|ssh a1@host|1000''"
    using e2 by (simp only: sweeper_witness_facts)
  from 1 2 3 4 n show ?thesis by (intro conjI)
qed

lemma sweeper_counter_facts:
  "trace (cleanup_old_instances alice_env young_world) = []"
  "db (cleanup_old_instances alice_env shared_id_world) = Some []"
  "trace (cleanup_old_instances deaf_env old_and_young_world)
     = [Docker [''docker'', ''stop'', ''c1''], Docker [''docker'', ''rm'', ''-f'', ''c1''],
        FileWrite, Send Console (AutoDeleted ''alice'' ''c1'' ''ssh a1@host'')]"
  by code_simp+

theorem sweeper_postcondition_counterexample:
  "trace (cleanup_old_instances alice_env young_world) = []
   \<and> db (cleanup_old_instances alice_env shared_id_world) = Some []
   \<and> trace (cleanup_old_instances deaf_env old_and_young_world)
       = [Docker [''docker'', ''stop'', ''c1''], Docker [''docker'', ''rm'', ''-f'', ''c1''],
          FileWrite, Send Console (AutoDeleted ''alice'' ''c1'' ''ssh a1@host'')]"
  using sweeper_counter_facts by (intro conjI)

end
